theory Spec2Isabelle
  imports Main "HOL-Library.AList" "HOL-Library.List_Lexorder" "HOL-Library.Product_Lexorder"
begin

section \<open>Strings and the Python primitives the code uses\<close>

text \<open>
  Strings are \<open>char list\<close>; the model reads a character as one ASCII code, so \<open>\d\<close> is
  \<open>0\<close> to \<open>9\<close>, \<open>[a-z]\<close> the 26 lowercase letters, and \<open>lower()\<close> and \<open>strip()\<close> act on
  ASCII letters and ASCII white space.
\<close>

datatype py_error = TypeError | ValueError

definition is_digit :: "char \<Rightarrow> bool" where
  "is_digit c = (c \<in> set ''0123456789'')"

definition is_lower :: "char \<Rightarrow> bool" where
  "is_lower c = (c \<in> set ''abcdefghijklmnopqrstuvwxyz'')"

definition is_space :: "char \<Rightarrow> bool" where
  \<comment> \<open>\<open>str.isspace\<close> on ASCII: tab, line feed, vertical tab, form feed, carriage return,
      the four separators 28 to 31, and the space\<close>
  "is_space c = (let n = (of_char c :: nat) in (9 \<le> n \<and> n \<le> 13) \<or> (28 \<le> n \<and> n \<le> 32))"

definition digit_val :: "char \<Rightarrow> nat" where
  "digit_val c = (of_char c :: nat) - 48"

definition digits_to_nat :: "string \<Rightarrow> nat" where
  \<comment> \<open>\<open>int(s)\<close> for a run of digits \<open>s\<close>\<close>
  "digits_to_nat s = foldl (\<lambda>n c. 10 * n + digit_val c) 0 s"

definition digit_run :: "string \<Rightarrow> bool" where
  \<comment> \<open>what \<open>\d+\<close> matches in full\<close>
  "digit_run s = (s \<noteq> [] \<and> list_all is_digit s)"

definition py_int :: "string \<Rightarrow> py_error + nat" where
  \<comment> \<open>\<open>int(s)\<close>: the code only calls it on what \<open>\d+\<close> matched; anything else is
      made the \<open>ValueError\<close> here\<close>
  "py_int s = (if digit_run s then Inr (digits_to_nat s) else Inl ValueError)"

definition digit_char :: "nat \<Rightarrow> char" where
  "digit_char d = char_of (48 + d)"

fun str_nat :: "nat \<Rightarrow> string" where
  \<comment> \<open>\<open>str(n)\<close> for a non-negative integer\<close>
  "str_nat n = (if n < 10 then [digit_char n] else str_nat (n div 10) @ [digit_char (n mod 10)])"

declare str_nat.simps [simp del]

fun py_split :: "char \<Rightarrow> string \<Rightarrow> string list" where
  \<comment> \<open>\<open>s.split(c)\<close> for a one-character separator\<close>
  "py_split c [] = [[]]"
| "py_split c (x # xs) =
     (if x = c then [] # py_split c xs
      else (case py_split c xs of [] \<Rightarrow> [[x]] | w # ws \<Rightarrow> (x # w) # ws))"

fun py_join :: "string \<Rightarrow> string list \<Rightarrow> string" where
  \<comment> \<open>\<open>sep.join(ws)\<close>\<close>
  "py_join sep [] = []"
| "py_join sep [w] = w"
| "py_join sep (w # v # ws) = w @ sep @ py_join sep (v # ws)"

definition py_strip :: "string \<Rightarrow> string" where
  "py_strip s = rev (dropWhile is_space (rev (dropWhile is_space s)))"

definition lower_char :: "char \<Rightarrow> char" where
  "lower_char c = (let n = (of_char c :: nat) in if 65 \<le> n \<and> n \<le> 90 then char_of (n + 32) else c)"

definition py_lower :: "string \<Rightarrow> string" where
  "py_lower s = map lower_char s"

fun str_lt :: "string \<Rightarrow> string \<Rightarrow> bool" where
  \<comment> \<open>\<open>s < t\<close> on strings: by code point, a proper prefix first\<close>
  "str_lt [] [] = False"
| "str_lt [] (y # ys) = True"
| "str_lt (x # xs) [] = False"
| "str_lt (x # xs) (y # ys) =
     (if x = y then str_lt xs ys else (of_char x :: nat) < of_char y)"

definition starts_with :: "string \<Rightarrow> string \<Rightarrow> bool" where
  "starts_with w s = (take (length w) s = w)"

definition ends_with :: "string \<Rightarrow> string \<Rightarrow> bool" where
  "ends_with w s = (length w \<le> length s \<and> drop (length s - length w) s = w)"

fun py_in :: "string \<Rightarrow> string \<Rightarrow> bool" where
  \<comment> \<open>\<open>w in s\<close>: \<open>w\<close> is a substring of \<open>s\<close>\<close>
  "py_in w [] = (w = [])"
| "py_in w (x # xs) = (starts_with w (x # xs) \<or> py_in w xs)"

section \<open>The identifier model (inference.py)\<close>

definition match_part :: "string \<Rightarrow> (string \<times> string) option" where
  \<comment> \<open>\<open>re.match(r'^(\d+)([a-z]?)$', part)\<close>, giving groups 1 and 2; \<open>$\<close> also matches
      before a line feed that ends the string\<close>
  "match_part part =
     (let ds = takeWhile is_digit part;
          r1 = dropWhile is_digit part;
          sfx = (case r1 of [] \<Rightarrow> [] | c # _ \<Rightarrow> if is_lower c then [c] else []);
          r2 = drop (length sfx) r1
      in if ds \<noteq> [] \<and> (r2 = [] \<or> r2 = [CHR 0x0A]) then Some (ds, sfx) else None)"

fun parse_parts :: "string list \<Rightarrow> nat list \<Rightarrow> string \<Rightarrow> nat list \<times> string" where
  \<comment> \<open>the loop of \<open>parse_task_id\<close> over the dot-separated parts, with \<open>numeric_parts\<close> and
      \<open>letter_suffix\<close> as accumulators\<close>
  "parse_parts [] numeric_parts letter_suffix = (numeric_parts, letter_suffix)"
| "parse_parts (part # parts) numeric_parts letter_suffix =
     (case match_part part of
        Some (g1, g2) \<Rightarrow>
          parse_parts parts (numeric_parts @ [digits_to_nat g1])
            (if g2 \<noteq> [] then g2 else letter_suffix)
      | None \<Rightarrow>
          (let digits = takeWhile is_digit part
           in if digits \<noteq> [] then parse_parts parts (numeric_parts @ [digits_to_nat digits]) letter_suffix
              else parse_parts parts numeric_parts letter_suffix))"

definition parse_task_id :: "string \<Rightarrow> nat list \<times> string" where
  "parse_task_id task_id = parse_parts (py_split CHR ''.'' task_id) [] []"

text \<open>
  The sort key is the Python tuple \<open>(*parts, suffix)\<close>: integers followed by one string.
  It is kept as the pair of the integers and the string.
\<close>

type_synonym sort_key = "nat list \<times> string"

definition task_id_sort_key :: "string \<Rightarrow> sort_key" where
  "task_id_sort_key task_id = parse_task_id task_id"

fun key_lt :: "sort_key \<Rightarrow> sort_key \<Rightarrow> py_error + bool" where
  \<comment> \<open>Python's \<open><\<close> on two such tuples: the first position where they differ decides, and
      there \<open><\<close> between a string and an integer raises \<open>TypeError\<close>\<close>
  "key_lt ([], s) ([], t) = Inr (str_lt s t)"
| "key_lt ([], s) (y # ys, t) = Inl TypeError"
| "key_lt (x # xs, s) ([], t) = Inl TypeError"
| "key_lt (x # xs, s) (y # ys, t) = (if x = y then key_lt (xs, s) (ys, t) else Inr (x < y))"

definition get_subsection_key :: "string \<Rightarrow> string" where
  "get_subsection_key task_id =
     (let parts = fst (parse_task_id task_id)
      in if length parts \<ge> 2 then py_join ''.'' (map str_nat (butlast parts))
         else (case parts of [] \<Rightarrow> [] | p # _ \<Rightarrow> str_nat p))"

definition strip_extension :: "string \<Rightarrow> string" where
  \<comment> \<open>\<open>re.sub(r'\.(ts|tsx|js|jsx|vue|py|go)$', '', name)\<close>: the one extension that ends
      the name (or stands before a line feed that ends it) is removed\<close>
  "strip_extension name =
     (case filter (\<lambda>e. ends_with e name) [''.ts'', ''.tsx'', ''.js'', ''.jsx'', ''.vue'', ''.py'', ''.go''] of
        e # _ \<Rightarrow> take (length name - length e) name
      | [] \<Rightarrow>
          (case filter (\<lambda>e. ends_with (e @ [CHR 0x0A]) name)
                  [''.ts'', ''.tsx'', ''.js'', ''.jsx'', ''.vue'', ''.py'', ''.go''] of
             e # _ \<Rightarrow> take (length name - length e - 1) name @ [CHR 0x0A]
           | [] \<Rightarrow> name))"

definition extract_stem :: "string \<Rightarrow> string" where
  "extract_stem filepath = py_lower (strip_extension (last (py_split CHR ''/'' filepath)))"

definition patterns :: "(string \<times> string list) list" where
  "patterns =
     [(''schema'', [''schema'', ''model'', ''table'', ''entity'']),
      (''type'', [''type'', ''interface'', ''typedef'']),
      (''mutation'', [''mutation'', ''create'', ''update'', ''delete'', ''write'']),
      (''query'', [''query'', ''read'', ''fetch'', ''get'', ''list'']),
      (''component'', [''component'', ''view'', ''page'', ''ui'']),
      (''test'', [''test'', ''spec'', ''coverage'']),
      (''api'', [''api'', ''endpoint'', ''route'', ''handler''])]"

definition extract_keywords :: "string \<Rightarrow> string list" where
  \<comment> \<open>the set of matched categories, listed in the order of the table (a Python set has
      no order of its own)\<close>
  "extract_keywords description =
     (let desc_lower = py_lower description
      in map fst (filter (\<lambda>(category, words). list_ex (\<lambda>word. py_in word desc_lower) words) patterns))"

section \<open>The records\<close>

text \<open>
  The parser builds these records; the inference engine reads the same data as
  dictionaries with the fields as keys. A field the engine reads with a default
  (\<open>get\<close>) and does not find is that default here, an empty list or string.
\<close>

record Task =
  id_t :: string
  description :: string
  files :: "string list"
  depends_on :: "string list"
  agent_type :: "string option"
  complexity :: string
  completed :: bool

record Section =
  number :: nat
  name :: string
  tasks :: "Task list"

record ParseResult =
  sections :: "Section list"
  errors :: "string list"
  warnings :: "string list"

record InferredDependency =
  from_task :: string
  to_task :: string
  confidence :: int
  reason :: string

record InferenceResult =
  auto_apply :: "InferredDependency list"
  pending_review :: "InferredDependency list"

section \<open>Sorting identifiers\<close>

definition comparable :: "string \<Rightarrow> string \<Rightarrow> bool" where
  "comparable a b = (case key_lt (task_id_sort_key a) (task_id_sort_key b) of Inl _ \<Rightarrow> False | Inr _ \<Rightarrow> True)"

definition id_lt :: "string \<Rightarrow> string \<Rightarrow> bool" where
  "id_lt a b = (key_lt (task_id_sort_key a) (task_id_sort_key b) = Inr True)"

fun insort_id :: "string \<Rightarrow> string list \<Rightarrow> string list" where
  "insort_id x [] = [x]"
| "insort_id x (y # ys) = (if id_lt y x then y # insort_id x ys else x # y # ys)"

text \<open>
  \<open>sorted(task_ids, key=task_id_sort_key)\<close> is a stable sort that uses \<open><\<close> on the keys and
  raises as soon as one comparison raises. It raises exactly when the list holds two keys
  that cannot be compared: a comparison sort has to compare directly two keys that end
  up next to each other, and every key that would stand between a key and a longer one
  extending its integers extends them too, so some comparison meets a string and an
  integer. Where all keys can be compared the result is the one stable ordering, which
  insertion from the right computes.
\<close>

definition py_sorted :: "string list \<Rightarrow> py_error + string list" where
  "py_sorted task_ids =
     (if list_all (\<lambda>a. list_all (\<lambda>b. comparable a b) task_ids) task_ids
      then Inr (foldr insort_id task_ids [])
      else Inl TypeError)"

section \<open>The inference strategies (inference.py)\<close>

fun dict_append :: "'k \<Rightarrow> 'v \<Rightarrow> ('k \<times> 'v list) list \<Rightarrow> ('k \<times> 'v list) list" where
  \<comment> \<open>\<open>d[k].append(v)\<close> on a dictionary of lists that creates a missing entry; the list of
      pairs keeps the dictionary's insertion order\<close>
  "dict_append k v [] = [(k, [v])]"
| "dict_append k v ((k', vs) # d) =
     (if k' = k then (k', vs @ [v]) # d else (k', vs) # dict_append k v d)"

definition subsection_tasks :: "Task list \<Rightarrow> (string \<times> string list) list" where
  "subsection_tasks all_tasks =
     foldl (\<lambda>d task. dict_append (get_subsection_key (id_t task)) (id_t task) d) [] all_tasks"

definition subsection_dep :: "string \<Rightarrow> string list \<Rightarrow> nat \<Rightarrow> InferredDependency" where
  "subsection_dep subsection sorted_ids i =
     \<lparr>from_task = sorted_ids ! i, to_task = sorted_ids ! (i - 1), confidence = 90,
      reason = ''subsection order: sequential within '' @ subsection\<rparr>"

fun subsection_loop ::
  "(string \<times> string list) list \<Rightarrow> InferredDependency list \<Rightarrow> py_error + InferredDependency list" where
  "subsection_loop [] dependencies = Inr dependencies"
| "subsection_loop ((subsection, task_ids) # rest) dependencies =
     (if length task_ids < 2 then subsection_loop rest dependencies
      else (case py_sorted task_ids of
              Inl e \<Rightarrow> Inl e
            | Inr sorted_ids \<Rightarrow>
                subsection_loop rest
                  (dependencies @ map (subsection_dep subsection sorted_ids) [1..<length sorted_ids])))"

definition infer_from_subsection_order :: "Task list \<Rightarrow> py_error + InferredDependency list" where
  "infer_from_subsection_order all_tasks = subsection_loop (subsection_tasks all_tasks) []"

definition stem_to_task :: "Task list \<Rightarrow> (string \<times> string list) list" where
  "stem_to_task all_tasks =
     foldl (\<lambda>d task. foldl (\<lambda>d filepath. dict_append (extract_stem filepath) (id_t task) d) d (files task))
       [] all_tasks"

definition file_dep :: "string \<Rightarrow> string \<Rightarrow> string \<Rightarrow> InferredDependency" where
  "file_dep stem later_task earlier_task =
     \<lparr>from_task = later_task, to_task = earlier_task, confidence = 85,
      reason = ''file pattern: shared stem '' @ [CHR 0x27] @ stem @ [CHR 0x27]\<rparr>"

fun file_loop ::
  "(string \<times> string list) list \<Rightarrow> InferredDependency list \<Rightarrow> py_error + InferredDependency list" where
  "file_loop [] dependencies = Inr dependencies"
| "file_loop ((stem, task_ids) # rest) dependencies =
     (if length task_ids > 1 then
        (case py_sorted task_ids of
           Inl e \<Rightarrow> Inl e
         | Inr sorted_ids \<Rightarrow>
             file_loop rest
               (dependencies @
                concat (map (\<lambda>i. map (file_dep stem (sorted_ids ! i)) (take i sorted_ids))
                          [1..<length sorted_ids])))
      else file_loop rest dependencies)"

definition infer_from_file_patterns :: "Task list \<Rightarrow> py_error + InferredDependency list" where
  "infer_from_file_patterns all_tasks = file_loop (stem_to_task all_tasks) []"

definition keyword_deps :: "(string \<times> string list) list" where
  "keyword_deps =
     [(''mutation'', [''schema'', ''type'']),
      (''query'', [''schema'', ''type'']),
      (''component'', [''type'', ''query'', ''mutation'']),
      (''test'', []),
      (''api'', [''schema'', ''type''])]"

definition keyword_to_tasks :: "Task list \<Rightarrow> (string \<times> string list) list" where
  "keyword_to_tasks all_tasks =
     foldl (\<lambda>d task. foldl (\<lambda>d kw. dict_append kw (id_t task) d) d (extract_keywords (description task)))
       [] all_tasks"

definition task_keywords :: "Task list \<Rightarrow> (string \<rightharpoonup> string list)" where
  \<comment> \<open>\<open>task_keywords[task['id']] = keywords\<close>: a later task with the same identifier
      replaces the entry\<close>
  "task_keywords all_tasks =
     foldl (\<lambda>m task. m(id_t task \<mapsto> extract_keywords (description task))) Map.empty all_tasks"

definition keyword_dep :: "string \<Rightarrow> string \<Rightarrow> string \<Rightarrow> string \<Rightarrow> InferredDependency" where
  "keyword_dep task_id dep_task_id kw req_kw =
     \<lparr>from_task = task_id, to_task = dep_task_id, confidence = 50,
      reason = ''keyword: '' @ [CHR 0x27] @ kw @ [CHR 0x27] @ '' typically depends on ''
                 @ [CHR 0x27] @ req_kw @ [CHR 0x27]\<rparr>"

fun dep_task_loop ::
  "string \<Rightarrow> string \<Rightarrow> string \<Rightarrow> string list \<Rightarrow> InferredDependency list \<Rightarrow>
   py_error + InferredDependency list" where
  \<comment> \<open>\<open>for dep_task_id in keyword_to_tasks[req_kw]\<close>\<close>
  "dep_task_loop task_id kw req_kw [] dependencies = Inr dependencies"
| "dep_task_loop task_id kw req_kw (dep_task_id # rest) dependencies =
     (if dep_task_id \<noteq> task_id then
        (case key_lt (task_id_sort_key dep_task_id) (task_id_sort_key task_id) of
           Inl e \<Rightarrow> Inl e
         | Inr earlier \<Rightarrow>
             dep_task_loop task_id kw req_kw rest
               (if earlier then dependencies @ [keyword_dep task_id dep_task_id kw req_kw]
                else dependencies))
      else dep_task_loop task_id kw req_kw rest dependencies)"

fun req_kw_loop ::
  "(string \<times> string list) list \<Rightarrow> string \<Rightarrow> string \<Rightarrow> string list \<Rightarrow> InferredDependency list \<Rightarrow>
   py_error + InferredDependency list" where
  \<comment> \<open>\<open>for req_kw in required_kws\<close>\<close>
  "req_kw_loop k2t task_id kw [] dependencies = Inr dependencies"
| "req_kw_loop k2t task_id kw (req_kw # rest) dependencies =
     (case map_of k2t req_kw of
        None \<Rightarrow> req_kw_loop k2t task_id kw rest dependencies
      | Some dep_task_ids \<Rightarrow>
          (case dep_task_loop task_id kw req_kw dep_task_ids dependencies of
             Inl e \<Rightarrow> Inl e
           | Inr dependencies' \<Rightarrow> req_kw_loop k2t task_id kw rest dependencies'))"

fun kw_loop ::
  "(string \<times> string list) list \<Rightarrow> string \<Rightarrow> string list \<Rightarrow> InferredDependency list \<Rightarrow>
   py_error + InferredDependency list" where
  \<comment> \<open>\<open>for kw in task_kws\<close>\<close>
  "kw_loop k2t task_id [] dependencies = Inr dependencies"
| "kw_loop k2t task_id (kw # rest) dependencies =
     (case req_kw_loop k2t task_id kw (case map_of keyword_deps kw of None \<Rightarrow> [] | Some r \<Rightarrow> r)
             dependencies of
        Inl e \<Rightarrow> Inl e
      | Inr dependencies' \<Rightarrow> kw_loop k2t task_id rest dependencies')"

fun keyword_task_loop ::
  "(string \<times> string list) list \<Rightarrow> (string \<rightharpoonup> string list) \<Rightarrow> Task list \<Rightarrow>
   InferredDependency list \<Rightarrow> py_error + InferredDependency list" where
  \<comment> \<open>the second \<open>for task in tasks\<close>\<close>
  "keyword_task_loop k2t tk [] dependencies = Inr dependencies"
| "keyword_task_loop k2t tk (task # rest) dependencies =
     (case kw_loop k2t (id_t task) (case tk (id_t task) of None \<Rightarrow> [] | Some kws \<Rightarrow> kws)
             dependencies of
        Inl e \<Rightarrow> Inl e
      | Inr dependencies' \<Rightarrow> keyword_task_loop k2t tk rest dependencies')"

definition infer_from_keywords :: "Task list \<Rightarrow> py_error + InferredDependency list" where
  "infer_from_keywords all_tasks =
     keyword_task_loop (keyword_to_tasks all_tasks) (task_keywords all_tasks) all_tasks []"

definition section_dep :: "Section list \<Rightarrow> nat \<Rightarrow> InferredDependency list" where
  \<comment> \<open>what the loop of \<open>infer_from_section_order\<close> appends at index \<open>i\<close>\<close>
  "section_dep secs i =
     (let section = secs ! i; prev_section = secs ! (i - 1)
      in if tasks prev_section \<noteq> [] \<and> tasks section \<noteq> [] then
           [\<lparr>from_task = id_t (hd (tasks section)), to_task = id_t (last (tasks prev_section)),
             confidence = 25,
             reason = ''section order: section '' @ str_nat (number section) @ '' after section ''
                        @ str_nat (number prev_section)\<rparr>]
         else [])"

definition infer_from_section_order :: "Section list \<Rightarrow> InferredDependency list" where
  "infer_from_section_order secs = concat (map (section_dep secs) [1..<length secs])"

definition dep_key :: "InferredDependency \<Rightarrow> string \<times> string" where
  "dep_key dep = (from_task dep, to_task dep)"

fun dedup_loop ::
  "InferredDependency list \<Rightarrow> ((string \<times> string) \<times> InferredDependency) list \<Rightarrow>
   ((string \<times> string) \<times> InferredDependency) list" where
  \<comment> \<open>the loop that fills \<open>unique_deps\<close>; \<open>AList.update\<close> replaces a value where its key
      stands and appends a new key, as a Python dictionary does\<close>
  "dedup_loop [] unique_deps = unique_deps"
| "dedup_loop (dep # rest) unique_deps =
     dedup_loop rest
       (case map_of unique_deps (dep_key dep) of
          None \<Rightarrow> AList.update (dep_key dep) dep unique_deps
        | Some old \<Rightarrow>
            if confidence dep > confidence old then AList.update (dep_key dep) dep unique_deps
            else unique_deps)"

fun categorize ::
  "int \<Rightarrow> InferredDependency list \<Rightarrow> InferredDependency list \<Rightarrow> InferredDependency list \<Rightarrow>
   InferenceResult" where
  "categorize confidence_threshold [] auto pending = \<lparr>auto_apply = auto, pending_review = pending\<rparr>"
| "categorize confidence_threshold (dep # rest) auto pending =
     (if confidence dep \<ge> confidence_threshold
      then categorize confidence_threshold rest (auto @ [dep]) pending
      else categorize confidence_threshold rest auto (pending @ [dep]))"

definition all_deps :: "Section list \<Rightarrow> py_error + InferredDependency list" where
  \<comment> \<open>the four strategies in the order they are run; the first that raises ends the call\<close>
  "all_deps secs =
     (let all_tasks = concat (map tasks secs)
      in case infer_from_subsection_order all_tasks of
           Inl e \<Rightarrow> Inl e
         | Inr d1 \<Rightarrow>
             (case infer_from_file_patterns all_tasks of
                Inl e \<Rightarrow> Inl e
              | Inr d2 \<Rightarrow>
                  (case infer_from_keywords all_tasks of
                     Inl e \<Rightarrow> Inl e
                   | Inr d3 \<Rightarrow> Inr (d1 @ d2 @ d3 @ infer_from_section_order secs))))"

definition infer_dependencies :: "Section list \<Rightarrow> int \<Rightarrow> py_error + InferenceResult" where
  "infer_dependencies secs confidence_threshold =
     (case all_deps secs of
        Inl e \<Rightarrow> Inl e
      | Inr deps \<Rightarrow> Inr (categorize confidence_threshold (map snd (dedup_loop deps [])) [] []))"

section \<open>The task document parser (parser.py)\<close>

text \<open>
  The two patterns are matched by Python's \<open>re\<close> library, which is not part of the
  repository. The model starts from what \<open>finditer\<close> yields: for every match of
  \<open>section_pattern\<close> its two groups, together with the matches of \<open>task_pattern\<close> in the
  text up to the next section header, each with its seven groups. A group that took no
  part in the match is \<open>None\<close>.
\<close>

record TaskMatch =
  checkbox_state :: string
  task_id :: string
  description_group :: string
  files_str :: "string option"
  depends_str :: "string option"
  agent :: "string option"
  complexity_group :: "string option"

record SectionMatch =
  number_group :: string
  name_group :: string
  task_matches :: "TaskMatch list"

abbreviation apostrophe :: string where
  "apostrophe \<equiv> [CHR 0x27]"

definition mismatch_error :: "string \<Rightarrow> nat \<Rightarrow> string" where
  "mismatch_error tid section_num =
     ''Task '' @ tid @ '' in section '' @ str_nat section_num @ '' should start with '' @ apostrophe
       @ str_nat section_num @ ''.'' @ apostrophe"

definition missing_files_warning :: "string \<Rightarrow> string" where
  "missing_files_warning tid =
     ''Task '' @ tid @ '' missing (files: ...) annotation - agent routing may be less accurate''"

definition invalid_complexity_warning :: "string \<Rightarrow> string \<Rightarrow> string" where
  "invalid_complexity_warning tid c =
     ''Task '' @ tid @ '' has invalid complexity '' @ apostrophe @ c @ apostrophe @ '', using ''
       @ apostrophe @ ''medium'' @ apostrophe"

definition empty_section_warning :: "nat \<Rightarrow> string \<Rightarrow> string" where
  "empty_section_warning section_num section_name =
     ''Section '' @ str_nat section_num @ '' '' @ apostrophe @ section_name @ apostrophe
       @ '' has no tasks''"

definition no_sections_error :: string where
  "no_sections_error =
     ''No sections found. Expected format: '' @ apostrophe @ ''## 1. Section Name'' @ apostrophe"

definition parse_list :: "string option \<Rightarrow> string list option" where
  \<comment> \<open>\<open>[f.strip() for f in s.split(',')]\<close> where the group \<open>s\<close> is there and not empty\<close>
  "parse_list s =
     (case s of
        None \<Rightarrow> None
      | Some v \<Rightarrow> if v = [] then None else Some (map py_strip (py_split CHR '','' v)))"

definition parse_complexity :: "string \<Rightarrow> string option \<Rightarrow> string \<times> string list" where
  \<comment> \<open>the step "Parse complexity": the value of the task, and the warnings it adds\<close>
  "parse_complexity tid complexity_g =
     (case complexity_g of
        None \<Rightarrow> (''medium'', [])
      | Some v \<Rightarrow>
          if v = [] then (''medium'', [])
          else (let c = py_lower (py_strip v)
                in if c \<notin> set [''low'', ''medium'', ''high'']
                   then (''medium'', [invalid_complexity_warning tid c])
                   else (c, [])))"

definition parse_task ::
  "nat \<Rightarrow> TaskMatch \<Rightarrow> string list \<Rightarrow> string list \<Rightarrow> py_error + (Task \<times> string list \<times> string list)" where
  \<comment> \<open>the body of the loop over the task matches of a section: the task it appends, and
      \<open>errors\<close> and \<open>warnings\<close> after it\<close>
  "parse_task section_num task_match errs warns =
     (case py_int (hd (py_split CHR ''.'' (task_id task_match))) of
        Inl e \<Rightarrow> Inl e
      | Inr task_section \<Rightarrow>
          (let errs1 = (if task_section \<noteq> section_num
                        then errs @ [mismatch_error (task_id task_match) section_num] else errs);
               (fs, warns1) = (case parse_list (files_str task_match) of
                                 Some fs \<Rightarrow> (fs, warns)
                               | None \<Rightarrow> ([], warns @ [missing_files_warning (task_id task_match)]));
               deps = (case parse_list (depends_str task_match) of Some ds \<Rightarrow> ds | None \<Rightarrow> []);
               (c, cwarns) = parse_complexity (task_id task_match) (complexity_group task_match)
           in Inr (\<lparr>id_t = task_id task_match,
                     description = py_strip (description_group task_match),
                     files = fs,
                     depends_on = deps,
                     agent_type = (case agent task_match of
                                     None \<Rightarrow> None
                                   | Some a \<Rightarrow> if a = [] then None else Some (py_strip a)),
                     complexity = c,
                     completed = (checkbox_state task_match = ''x'')\<rparr>,
                   errs1, warns1 @ cwarns)))"

fun task_loop ::
  "nat \<Rightarrow> TaskMatch list \<Rightarrow> Task list \<Rightarrow> string list \<Rightarrow> string list \<Rightarrow>
   py_error + (Task list \<times> string list \<times> string list)" where
  \<comment> \<open>\<open>for task_match in task_pattern.finditer(section_content)\<close>, with \<open>section.tasks\<close>,
      \<open>errors\<close> and \<open>warnings\<close> as accumulators\<close>
  "task_loop section_num [] section_tasks errs warns = Inr (section_tasks, errs, warns)"
| "task_loop section_num (task_match # rest) section_tasks errs warns =
     (case parse_task section_num task_match errs warns of
        Inl e \<Rightarrow> Inl e
      | Inr (task, errs', warns') \<Rightarrow> task_loop section_num rest (section_tasks @ [task]) errs' warns')"

fun section_loop ::
  "SectionMatch list \<Rightarrow> Section list \<Rightarrow> string list \<Rightarrow> string list \<Rightarrow> py_error + ParseResult" where
  \<comment> \<open>\<open>for i, match in enumerate(section_matches)\<close>\<close>
  "section_loop [] secs errs warns = Inr \<lparr>sections = secs, errors = errs, warnings = warns\<rparr>"
| "section_loop (m # rest) secs errs warns =
     (case py_int (number_group m) of
        Inl e \<Rightarrow> Inl e
      | Inr section_num \<Rightarrow>
          (let section_name = py_strip (name_group m)
           in case task_loop section_num (task_matches m) [] errs warns of
                Inl e \<Rightarrow> Inl e
              | Inr (section_tasks, errs', warns') \<Rightarrow>
                  section_loop rest
                    (secs @ [\<lparr>number = section_num, name = section_name, tasks = section_tasks\<rparr>])
                    errs'
                    (if section_tasks = [] then warns' @ [empty_section_warning section_num section_name]
                     else warns')))"

definition parse_tasks_md :: "SectionMatch list \<Rightarrow> py_error + ParseResult" where
  "parse_tasks_md section_matches =
     (if section_matches = [] then Inr \<lparr>sections = [], errors = [no_sections_error], warnings = []\<rparr>
      else section_loop section_matches [] [] [])"

definition unknown_dependency_error :: "string \<Rightarrow> string \<Rightarrow> string" where
  "unknown_dependency_error tid dep =
     ''Task '' @ tid @ '' depends on unknown task '' @ apostrophe @ dep @ apostrophe"

definition all_task_ids :: "Section list \<Rightarrow> string set" where
  "all_task_ids secs = set (concat (map (\<lambda>section. map id_t (tasks section)) secs))"

definition validate_dependencies :: "Section list \<Rightarrow> string list" where
  "validate_dependencies secs =
     foldl (\<lambda>errs section.
        foldl (\<lambda>errs task.
           foldl (\<lambda>errs dep.
              if dep \<notin> all_task_ids secs then errs @ [unknown_dependency_error (id_t task) dep]
              else errs)
             errs (depends_on task))
          errs (tasks section))
       [] secs"

section \<open>Notions used in the statements and proofs\<close>

definition dedup_step ::
  "InferredDependency \<Rightarrow> ((string \<times> string) \<times> InferredDependency) list \<Rightarrow>
   ((string \<times> string) \<times> InferredDependency) list" where
  \<comment> \<open>one round of the loop that fills \<open>unique_deps\<close>\<close>
  "dedup_step dep unique_deps =
     (case map_of unique_deps (dep_key dep) of
          None \<Rightarrow> AList.update (dep_key dep) dep unique_deps
        | Some old \<Rightarrow>
            if confidence dep > confidence old then AList.update (dep_key dep) dep unique_deps
            else unique_deps)"

definition first_best :: "InferredDependency list \<Rightarrow> string \<times> string \<Rightarrow> InferredDependency \<Rightarrow> bool" where
  \<comment> \<open>\<open>d\<close> is the first of the candidates with key \<open>k\<close> whose confidence is the highest\<close>
  "first_best xs k d =
     (\<exists>i<length xs. xs ! i = d \<and> dep_key d = k \<and>
        (\<forall>j<length xs. dep_key (xs ! j) = k \<longrightarrow>
           confidence (xs ! j) \<le> confidence d \<and> (j < i \<longrightarrow> confidence (xs ! j) < confidence d)))"

definition valid_task_id :: "string \<Rightarrow> bool" where
  \<comment> \<open>the strings that \<open>\d+\.\d+(?:\.\d+)?[a-z]?\<close>, the identifier of \<open>task_pattern\<close>,
      matches in full: two or three runs of digits joined by dots, then at most one
      lowercase letter\<close>
  "valid_task_id s =
     (let ps = py_split CHR ''.'' s
      in (length ps = 2 \<or> length ps = 3) \<and> list_all digit_run (butlast ps) \<and>
         (digit_run (last ps) \<or> (digit_run (butlast (last ps)) \<and> is_lower (last (last ps)))))"

definition wf_task_match :: "TaskMatch \<Rightarrow> bool" where
  \<comment> \<open>group 2 of a match of \<open>task_pattern\<close> is an identifier\<close>
  "wf_task_match tm = valid_task_id (task_id tm)"

definition wf_section_match :: "SectionMatch \<Rightarrow> bool" where
  \<comment> \<open>group 1 of a match of \<open>section_pattern\<close> is a run of digits, and the task matches
      of the section are as above\<close>
  "wf_section_match m = (digit_run (number_group m) \<and> list_all wf_task_match (task_matches m))"

definition task_of_match :: "TaskMatch \<Rightarrow> Task" where
  \<comment> \<open>the record a round of the task loop appends\<close>
  "task_of_match tm =
     \<lparr>id_t = task_id tm,
      description = py_strip (description_group tm),
      files = (case parse_list (files_str tm) of Some fs \<Rightarrow> fs | None \<Rightarrow> []),
      depends_on = (case parse_list (depends_str tm) of Some ds \<Rightarrow> ds | None \<Rightarrow> []),
      agent_type = (case agent tm of None \<Rightarrow> None | Some a \<Rightarrow> if a = [] then None else Some (py_strip a)),
      complexity = fst (parse_complexity (task_id tm) (complexity_group tm)),
      completed = (checkbox_state tm = ''x'')\<rparr>"

definition task_errors :: "nat \<Rightarrow> TaskMatch \<Rightarrow> string list" where
  \<comment> \<open>the errors a round of the task loop adds\<close>
  "task_errors section_num tm =
     (if digits_to_nat (hd (py_split CHR ''.'' (task_id tm))) \<noteq> section_num
      then [mismatch_error (task_id tm) section_num] else [])"

definition task_warnings :: "TaskMatch \<Rightarrow> string list" where
  \<comment> \<open>the warnings a round of the task loop adds\<close>
  "task_warnings tm =
     (case parse_list (files_str tm) of Some fs \<Rightarrow> [] | None \<Rightarrow> [missing_files_warning (task_id tm)])
     @ snd (parse_complexity (task_id tm) (complexity_group tm))"

definition section_of_match :: "SectionMatch \<Rightarrow> Section" where
  "section_of_match m =
     \<lparr>number = digits_to_nat (number_group m), name = py_strip (name_group m),
      tasks = map task_of_match (task_matches m)\<rparr>"

definition section_errors :: "SectionMatch \<Rightarrow> string list" where
  "section_errors m = concat (map (task_errors (digits_to_nat (number_group m))) (task_matches m))"

definition section_warnings :: "SectionMatch \<Rightarrow> string list" where
  "section_warnings m =
     concat (map task_warnings (task_matches m))
     @ (if task_matches m = []
        then [empty_section_warning (digits_to_nat (number_group m)) (py_strip (name_group m))] else [])"

definition dict_of_pairs :: "('k \<times> 'v) list \<Rightarrow> ('k \<times> 'v list) list" where
  \<comment> \<open>the dictionary of lists that appending the pairs one by one builds\<close>
  "dict_of_pairs kvs = foldl (\<lambda>d (k, v). dict_append k v d) [] kvs"

definition required_kws :: "string \<Rightarrow> string list" where
  \<comment> \<open>\<open>keyword_deps.get(kw, [])\<close>\<close>
  "required_kws kw = (case map_of keyword_deps kw of None \<Rightarrow> [] | Some r \<Rightarrow> r)"

definition keyword_edge ::
  "(string \<times> string list) list \<Rightarrow> (string \<rightharpoonup> string list) \<Rightarrow> InferredDependency \<Rightarrow> bool" where
  \<comment> \<open>what holds of an edge the keyword strategy appends\<close>
  "keyword_edge k2t tk d =
     (confidence d = 50 \<and> from_task d \<noteq> to_task d \<and>
      key_lt (task_id_sort_key (to_task d)) (task_id_sort_key (from_task d)) = Inr True \<and>
      (\<exists>kws kw req_kw dep_task_ids.
         tk (from_task d) = Some kws \<and> kw \<in> set kws \<and> req_kw \<in> set (required_kws kw) \<and>
         map_of k2t req_kw = Some dep_task_ids \<and> to_task d \<in> set dep_task_ids \<and>
         d = keyword_dep (from_task d) (to_task d) kw req_kw))"

definition key_order :: "sort_key \<Rightarrow> nat list \<times> nat list" where
  \<comment> \<open>a key as a pair of lists of numbers, ordered lexicographically\<close>
  "key_order k = (fst k, map of_char (snd k))"

section \<open>Concrete inputs\<close>

definition task_of :: "string \<Rightarrow> string \<Rightarrow> string list \<Rightarrow> Task" where
  \<comment> \<open>a task with the given identifier, description and files, and nothing else declared\<close>
  "task_of i d fs =
     \<lparr>id_t = i, description = d, files = fs, depends_on = [], agent_type = None,
      complexity = ''medium'', completed = False\<rparr>"

definition nested_ids :: "Section list" where
  "nested_ids =
     [\<lparr>number = 1, name = ''Setup'',
       tasks = [task_of ''1.1'' ''Add schema'' [], task_of ''1.1.1'' ''Add mutation'' []]\<rparr>]"

definition two_sections :: "Section list" where
  "two_sections =
     [\<lparr>number = 1, name = ''Setup'',
       tasks = [task_of ''1.1'' ''Add schema'' [''schema.ts''],
                task_of ''1.2'' ''Add mutation'' [''mutation.ts'']]\<rparr>,
      \<lparr>number = 2, name = ''Build'', tasks = [task_of ''2.1'' ''Deploy'' [''deploy.py'']]\<rparr>]"

definition edge_12_11 :: InferredDependency where
  "edge_12_11 =
     \<lparr>from_task = ''1.2'', to_task = ''1.1'', confidence = 90,
      reason = ''subsection order: sequential within 1''\<rparr>"

definition edge_21_12 :: InferredDependency where
  "edge_21_12 =
     \<lparr>from_task = ''2.1'', to_task = ''1.2'', confidence = 25,
      reason = ''section order: section 2 after section 1''\<rparr>"

definition dangling_dependency :: "Section list" where
  "dangling_dependency =
     [\<lparr>number = 1, name = ''Setup'',
       tasks = [task_of ''1.1'' ''Add schema'' [''schema.ts''],
                (task_of ''1.2'' ''Add mutation'' [''mutation.ts''])\<lparr>depends_on := [''1.1'', ''9.9'']\<rparr>]\<rparr>]"

definition line_of :: "string \<Rightarrow> string \<Rightarrow> string \<Rightarrow> TaskMatch" where
  \<comment> \<open>the groups of \<open>- [ ] ID DESCRIPTION (files: FILES)\<close>\<close>
  "line_of tid d fs =
     \<lparr>checkbox_state = '' '', task_id = tid, description_group = d, files_str = Some fs,
      depends_str = None, agent = None, complexity_group = None\<rparr>"

definition one_line :: "SectionMatch list" where
  \<comment> \<open>the matches in the two lines \<open>## 1. Setup\<close> and \<open>- [ ] 1.1 Add schema (files: schema.ts)\<close>\<close>
  "one_line =
     [\<lparr>number_group = ''1'', name_group = ''Setup'',
       task_matches = [line_of ''1.1'' ''Add schema'' ''schema.ts'']\<rparr>]"

definition repeated_id :: "SectionMatch list" where
  \<comment> \<open>the matches in \<open>## 1. Setup\<close>, \<open>- [ ] 1.1 Add schema (files: schema.ts)\<close> and
      \<open>- [ ] 1.1 Add mutation (files: mutation.ts)\<close>\<close>
  "repeated_id =
     [\<lparr>number_group = ''1'', name_group = ''Setup'',
       task_matches = [line_of ''1.1'' ''Add schema'' ''schema.ts'',
                       line_of ''1.1'' ''Add mutation'' ''mutation.ts'']\<rparr>]"

definition misplaced_line :: "SectionMatch list" where
  \<comment> \<open>the matches in \<open>## 1. Setup\<close> and \<open>- [ ] 2.1 Add schema (files: schema.ts)\<close>\<close>
  "misplaced_line =
     [\<lparr>number_group = ''1'', name_group = ''Setup'',
       task_matches = [line_of ''2.1'' ''Add schema'' ''schema.ts'']\<rparr>]"

definition invalid_complexity_line :: "SectionMatch list" where
  \<comment> \<open>the matches in \<open>## 1. Setup\<close> and
      \<open>- [ ] 1.1 Add schema (files: schema.ts) (complexity: huge)\<close>\<close>
  "invalid_complexity_line =
     [\<lparr>number_group = ''1'', name_group = ''Setup'',
       task_matches = [(line_of ''1.1'' ''Add schema'' ''schema.ts'')\<lparr>complexity_group := Some ''huge''\<rparr>]\<rparr>]"

section \<open>Properties of the inference engine\<close>

subsection \<open>Sort keys that cannot be compared\<close>

text \<open>
  C1. The claim is that \<open>infer_dependencies\<close> never raises, whatever the identifiers. The
  keys of \<open>1.1\<close> and \<open>1.1.1\<close> are \<open>(1, 1, '')\<close> and \<open>(1, 1, 1, '')\<close>; the keyword strategy
  compares them for a task that mentions a mutation and an earlier one that mentions a
  schema, the comparison reaches the empty string and the integer 1, and the call ends
  in a \<open>TypeError\<close>.
\<close>

theorem infer_dependencies_raises:
  "infer_dependencies nested_ids 70 = Inl TypeError"
  by code_simp

subsection \<open>Threshold\<close>

lemma two_sections_at_20:
  "infer_dependencies two_sections 20 =
     Inr \<lparr>auto_apply = [edge_12_11, edge_21_12], pending_review = []\<rparr>"
  by code_simp

lemma two_sections_at_70:
  "infer_dependencies two_sections 70 =
     Inr \<lparr>auto_apply = [edge_12_11], pending_review = [edge_21_12]\<rparr>"
  by code_simp

lemma categorize_auto:
  "auto_apply (categorize t ds a p) = a @ filter (\<lambda>d. confidence d \<ge> t) ds"
  by (induction ds arbitrary: a p) auto

lemma categorize_pending:
  "pending_review (categorize t ds a p) = p @ filter (\<lambda>d. confidence d < t) ds"
  by (induction ds arbitrary: a p) (auto simp: not_le)

lemma infer_dependencies_Inr:
  assumes "infer_dependencies secs t = Inr r"
  obtains deps where "all_deps secs = Inr deps"
    and "r = categorize t (map snd (dedup_loop deps [])) [] []"
  using assms by (auto simp: infer_dependencies_def split: sum.splits)

text \<open>
  C7. For one input and two thresholds \<open>t1 < t2\<close>, every edge applied automatically at
  \<open>t2\<close> is applied automatically at \<open>t1\<close>. The two buckets split the merged edges: the
  first holds those whose confidence reaches the threshold, the second those below it,
  each in the order of the merged edges.
\<close>

theorem auto_apply_antitone:
  assumes "infer_dependencies secs t1 = Inr r1"
    and "infer_dependencies secs t2 = Inr r2"
    and "t1 < t2"
  shows "set (auto_apply r2) \<subseteq> set (auto_apply r1) \<and>
         (\<exists>deps. all_deps secs = Inr deps \<and>
            auto_apply r1 = filter (\<lambda>d. confidence d \<ge> t1) (map snd (dedup_loop deps [])) \<and>
            pending_review r1 = filter (\<lambda>d. confidence d < t1) (map snd (dedup_loop deps [])))"
proof -
  from assms(1) obtain deps where d: "all_deps secs = Inr deps"
    and r1: "r1 = categorize t1 (map snd (dedup_loop deps [])) [] []"
    by (rule infer_dependencies_Inr)
  from assms(2) d have r2: "r2 = categorize t2 (map snd (dedup_loop deps [])) [] []"
    by (auto elim!: infer_dependencies_Inr)
  have "set (auto_apply r2) \<subseteq> set (auto_apply r1)"
    using assms(3) by (auto simp: r1 r2 categorize_auto)
  moreover have "auto_apply r1 = filter (\<lambda>d. confidence d \<ge> t1) (map snd (dedup_loop deps []))"
    by (simp add: r1 categorize_auto)
  moreover have "pending_review r1 = filter (\<lambda>d. confidence d < t1) (map snd (dedup_loop deps []))"
    by (simp add: r1 categorize_pending)
  ultimately show ?thesis using d by blast
qed

theorem auto_apply_antitone_witness:
  "infer_dependencies two_sections 20 = Inr \<lparr>auto_apply = [edge_12_11, edge_21_12], pending_review = []\<rparr> \<and>
   infer_dependencies two_sections 70 = Inr \<lparr>auto_apply = [edge_12_11], pending_review = [edge_21_12]\<rparr> \<and>
   set [edge_12_11] \<subseteq> set [edge_12_11, edge_21_12]"
proof -
  have "(20::int) < 70" by simp
  from auto_apply_antitone [OF two_sections_at_20 two_sections_at_70 this]
    two_sections_at_20 two_sections_at_70
  show ?thesis by simp
qed

subsection \<open>Merging the candidates\<close>

lemma dedup_loop_append:
  "dedup_loop (xs @ ys) acc = dedup_loop ys (dedup_loop xs acc)"
  by (induction xs arbitrary: acc) auto

lemma dedup_loop_snoc:
  "dedup_loop (xs @ [x]) [] = dedup_step x (dedup_loop xs [])"
  by (simp add: dedup_loop_append dedup_step_def)

lemma map_of_dedup_step:
  "map_of (dedup_step x R) =
     (case map_of R (dep_key x) of
        None \<Rightarrow> (map_of R)(dep_key x \<mapsto> x)
      | Some old \<Rightarrow> if confidence x > confidence old then (map_of R)(dep_key x \<mapsto> x) else map_of R)"
  by (auto simp: dedup_step_def update_conv' split: option.splits)

lemma distinct_dedup_step:
  "distinct (map fst R) \<Longrightarrow> distinct (map fst (dedup_step x R))"
  by (auto simp: dedup_step_def distinct_update split: option.splits)

lemma distinct_dedup_loop: "distinct (map fst (dedup_loop xs []))"
  by (induction xs rule: rev_induct) (simp_all add: dedup_loop_snoc distinct_dedup_step)

lemma first_best_snoc_other:
  "dep_key x \<noteq> k \<Longrightarrow> first_best (xs @ [x]) k d = first_best xs k d"
  unfolding first_best_def by (auto simp: nth_append less_Suc_eq)

lemma first_best_snoc_new:
  assumes "\<forall>c \<in> set xs. dep_key c = dep_key x \<longrightarrow> confidence c < confidence x"
  shows "first_best (xs @ [x]) (dep_key x) x"
  unfolding first_best_def
  apply (rule exI[of _ "length xs"])
  using assms by (auto simp: nth_append less_Suc_eq)

lemma first_best_snoc_keep:
  assumes "first_best xs (dep_key x) d" "confidence x \<le> confidence d"
  shows "first_best (xs @ [x]) (dep_key x) d"
  using assms unfolding first_best_def by (auto simp: nth_append less_Suc_eq)

lemma first_best_bound:
  "first_best xs k d \<Longrightarrow> c \<in> set xs \<Longrightarrow> dep_key c = k \<Longrightarrow> confidence c \<le> confidence d"
  unfolding first_best_def by (metis in_set_conv_nth)

lemma dedup_loop_dom:
  "(map_of (dedup_loop xs []) k = None) = (k \<notin> dep_key ` set xs)"
  by (induction xs rule: rev_induct)
     (auto simp: dedup_loop_snoc map_of_dedup_step split: option.splits)

lemma dedup_loop_first_best:
  "map_of (dedup_loop xs []) k = Some d \<Longrightarrow> first_best xs k d"
proof (induction xs arbitrary: k d rule: rev_induct)
  case Nil
  then show ?case by simp
next
  case (snoc x xs)
  let ?R = "dedup_loop xs []"
  show ?case
  proof (cases "k = dep_key x")
    case False
    with snoc.prems have "map_of ?R k = Some d"
      by (auto simp: dedup_loop_snoc map_of_dedup_step split: option.splits if_splits)
    with snoc.IH False show ?thesis by (simp add: first_best_snoc_other)
  next
    case True
    show ?thesis
    proof (cases "map_of ?R (dep_key x)")
      case None
      then have "dep_key x \<notin> dep_key ` set xs" by (simp add: dedup_loop_dom)
      then have "\<forall>c \<in> set xs. dep_key c = dep_key x \<longrightarrow> confidence c < confidence x"
        by (metis image_eqI)
      moreover from None snoc.prems True have "d = x"
        by (auto simp: dedup_loop_snoc map_of_dedup_step)
      ultimately show ?thesis using True by (simp add: first_best_snoc_new)
    next
      case (Some old)
      then have fb: "first_best xs (dep_key x) old" by (rule snoc.IH)
      show ?thesis
      proof (cases "confidence x > confidence old")
        case gt: True
        with Some snoc.prems True have "d = x"
          by (auto simp: dedup_loop_snoc map_of_dedup_step)
        moreover have "\<forall>c \<in> set xs. dep_key c = dep_key x \<longrightarrow> confidence c < confidence x"
          using first_best_bound[OF fb] gt by fastforce
        ultimately show ?thesis using True by (simp add: first_best_snoc_new)
      next
        case le: False
        with Some snoc.prems True have "d = old"
          by (auto simp: dedup_loop_snoc map_of_dedup_step)
        with fb le True show ?thesis by (simp add: first_best_snoc_keep)
      qed
    qed
  qed
qed

lemma dedup_loop_entry:
  assumes "(k, d) \<in> set (dedup_loop xs [])"
  shows "first_best xs k d"
proof -
  have "map_of (dedup_loop xs []) k = Some d"
    using assms distinct_dedup_loop [of xs] by (rule_tac map_of_is_SomeI)
  then show ?thesis by (rule dedup_loop_first_best)
qed

lemma dedup_loop_keys:
  "map fst (dedup_loop xs []) = map dep_key (map snd (dedup_loop xs []))"
proof -
  have "fst p = dep_key (snd p)" if "p \<in> set (dedup_loop xs [])" for p
  proof -
    from that have "first_best xs (fst p) (snd p)"
      by (intro dedup_loop_entry) simp
    then show ?thesis by (auto simp: first_best_def)
  qed
  then show ?thesis by simp
qed

lemma dedup_loop_key_set:
  "dep_key ` set (map snd (dedup_loop xs [])) = dep_key ` set xs"
proof -
  have "dep_key ` set (map snd (dedup_loop xs [])) = set (map fst (dedup_loop xs []))"
    by (simp add: dedup_loop_keys image_image)
  also have "\<dots> = dom (map_of (dedup_loop xs []))"
    by (simp add: dom_map_of_conv_image_fst)
  also have "\<dots> = dep_key ` set xs"
    using dedup_loop_dom [of xs] by (auto simp: dom_def)
  finally show ?thesis .
qed

lemma all_deps_Inr:
  assumes "all_deps secs = Inr cands"
  obtains d1 d2 d3 where
    "infer_from_subsection_order (concat (map tasks secs)) = Inr d1"
    "infer_from_file_patterns (concat (map tasks secs)) = Inr d2"
    "infer_from_keywords (concat (map tasks secs)) = Inr d3"
    "cands = d1 @ d2 @ d3 @ infer_from_section_order secs"
  using assms by (auto simp: all_deps_def Let_def split: sum.splits)

lemma distinct_map_filter_split:
  assumes "distinct (map f xs)"
  shows "distinct (map f (filter P xs @ filter (\<lambda>x. \<not> P x) xs))"
  using assms by (induction xs) auto

text \<open>
  C3. The candidates are pooled in the order subsection, file pattern, keyword, section
  order. The output (both buckets together) holds at most one edge per ordered pair
  \<open>(from_task, to_task)\<close>, holds an edge for every pair that has a candidate, and each
  edge it holds is a candidate, reason included, than which no candidate of its pair has
  a higher confidence and before which every candidate of its pair has a lower one.
\<close>

theorem merge_keeps_first_maximal:
  assumes "infer_dependencies secs t = Inr r"
  shows "\<exists>d1 d2 d3 cands.
           infer_from_subsection_order (concat (map tasks secs)) = Inr d1 \<and>
           infer_from_file_patterns (concat (map tasks secs)) = Inr d2 \<and>
           infer_from_keywords (concat (map tasks secs)) = Inr d3 \<and>
           cands = d1 @ d2 @ d3 @ infer_from_section_order secs \<and>
           distinct (map dep_key (auto_apply r @ pending_review r)) \<and>
           dep_key ` set (auto_apply r @ pending_review r) = dep_key ` set cands \<and>
           (\<forall>d \<in> set (auto_apply r @ pending_review r).
              \<exists>i<length cands. cands ! i = d \<and>
                (\<forall>j<length cands. dep_key (cands ! j) = dep_key d \<longrightarrow>
                   confidence (cands ! j) \<le> confidence d \<and>
                   (j < i \<longrightarrow> confidence (cands ! j) < confidence d)))"
proof -
  from assms obtain cands where c: "all_deps secs = Inr cands"
    and r: "r = categorize t (map snd (dedup_loop cands [])) [] []"
    by (rule infer_dependencies_Inr)
  from c obtain d1 d2 d3 where s:
    "infer_from_subsection_order (concat (map tasks secs)) = Inr d1"
    "infer_from_file_patterns (concat (map tasks secs)) = Inr d2"
    "infer_from_keywords (concat (map tasks secs)) = Inr d3"
    "cands = d1 @ d2 @ d3 @ infer_from_section_order secs"
    by (rule all_deps_Inr)
  let ?m = "map snd (dedup_loop cands [])"
  have out: "auto_apply r @ pending_review r =
      filter (\<lambda>d. confidence d \<ge> t) ?m @ filter (\<lambda>d. \<not> confidence d \<ge> t) ?m"
    by (simp add: r categorize_auto categorize_pending not_le)
  have "distinct (map dep_key ?m)"
    using distinct_dedup_loop [of cands] by (simp add: dedup_loop_keys)
  then have 1: "distinct (map dep_key (auto_apply r @ pending_review r))"
    unfolding out by (rule distinct_map_filter_split)
  have set_out: "set (auto_apply r @ pending_review r) = set ?m"
    unfolding out by auto
  have 2: "dep_key ` set (auto_apply r @ pending_review r) = dep_key ` set cands"
    unfolding set_out by (rule dedup_loop_key_set)
  have "\<exists>i<length cands. cands ! i = d \<and>
                (\<forall>j<length cands. dep_key (cands ! j) = dep_key d \<longrightarrow>
                   confidence (cands ! j) \<le> confidence d \<and>
                   (j < i \<longrightarrow> confidence (cands ! j) < confidence d))"
    if "d \<in> set (auto_apply r @ pending_review r)" for d
  proof -
    from that obtain k where "(k, d) \<in> set (dedup_loop cands [])"
      unfolding set_out by auto
    then have "first_best cands k d" by (rule dedup_loop_entry)
    then show ?thesis unfolding first_best_def by blast
  qed
  then have 3: "\<forall>d \<in> set (auto_apply r @ pending_review r).
              \<exists>i<length cands. cands ! i = d \<and>
                (\<forall>j<length cands. dep_key (cands ! j) = dep_key d \<longrightarrow>
                   confidence (cands ! j) \<le> confidence d \<and>
                   (j < i \<longrightarrow> confidence (cands ! j) < confidence d))"
    by (rule ballI)
  show ?thesis
    by (rule exI [of _ d1], rule exI [of _ d2], rule exI [of _ d3], rule exI [of _ cands])
       (intro conjI; fact)
qed

theorem merge_keeps_first_maximal_witness:
  "infer_dependencies two_sections 70 = Inr \<lparr>auto_apply = [edge_12_11], pending_review = [edge_21_12]\<rparr> \<and>
   distinct (map dep_key [edge_12_11, edge_21_12])"
  using merge_keeps_first_maximal [OF two_sections_at_70] two_sections_at_70 by auto

subsection \<open>Dictionaries of lists\<close>

lemma map_of_dict_append:
  "map_of (dict_append k v d) =
     (map_of d)(k \<mapsto> (case map_of d k of None \<Rightarrow> [v] | Some vs \<Rightarrow> vs @ [v]))"
  by (induction d) (auto simp: fun_eq_iff)

lemma keys_dict_append:
  "fst ` set (dict_append k v d) = insert k (fst ` set d)"
  by (induction d) force+

lemma distinct_dict_append:
  "distinct (map fst d) \<Longrightarrow> distinct (map fst (dict_append k v d))"
  by (induction d) (auto simp: keys_dict_append)

lemma dict_of_pairs_snoc:
  "dict_of_pairs (kvs @ [(k, v)]) = dict_append k v (dict_of_pairs kvs)"
  by (simp add: dict_of_pairs_def)

lemma distinct_dict_of_pairs: "distinct (map fst (dict_of_pairs kvs))"
proof (induction kvs rule: rev_induct)
  case Nil
  then show ?case by (simp add: dict_of_pairs_def)
next
  case (snoc p kvs)
  then show ?case by (cases p) (simp add: dict_of_pairs_snoc distinct_dict_append)
qed

lemma filter_key_empty:
  "k \<notin> fst ` set kvs \<Longrightarrow> filter (\<lambda>p. fst p = k) kvs = []"
  by (induction kvs) auto

lemma map_of_dict_of_pairs:
  "map_of (dict_of_pairs kvs) k =
     (if k \<in> fst ` set kvs then Some (map snd (filter (\<lambda>p. fst p = k) kvs)) else None)"
proof (induction kvs rule: rev_induct)
  case Nil
  then show ?case by (simp add: dict_of_pairs_def)
next
  case (snoc p kvs)
  obtain k' v where p: "p = (k', v)" by (cases p)
  show ?case
  proof (cases "k = k'")
    case False
    with snoc show ?thesis by (simp add: p dict_of_pairs_snoc map_of_dict_append)
  next
    case True
    show ?thesis
    proof (cases "k \<in> fst ` set kvs")
      case in_kvs: True
      with snoc True show ?thesis
        by (simp add: p dict_of_pairs_snoc map_of_dict_append)
    next
      case not_in: False
      with snoc True show ?thesis
        by (simp add: p dict_of_pairs_snoc map_of_dict_append filter_key_empty)
    qed
  qed
qed

lemma dict_of_pairs_entry:
  "(k, vs) \<in> set (dict_of_pairs kvs) \<longleftrightarrow>
     k \<in> fst ` set kvs \<and> vs = map snd (filter (\<lambda>p. fst p = k) kvs)"
proof -
  have "(k, vs) \<in> set (dict_of_pairs kvs) \<longleftrightarrow> map_of (dict_of_pairs kvs) k = Some vs"
    using distinct_dict_of_pairs [of kvs] by simp
  then show ?thesis by (auto simp: map_of_dict_of_pairs)
qed

lemma foldl_concat: "foldl f a (concat xss) = foldl (foldl f) a xss"
  by (induction xss arbitrary: a) auto

lemma subsection_tasks_pairs:
  "subsection_tasks ts = dict_of_pairs (map (\<lambda>t. (get_subsection_key (id_t t), id_t t)) ts)"
  by (simp add: subsection_tasks_def dict_of_pairs_def foldl_map)

lemma stem_to_task_pairs:
  "stem_to_task ts =
     dict_of_pairs (concat (map (\<lambda>t. map (\<lambda>filepath. (extract_stem filepath, id_t t)) (files t)) ts))"
  by (simp add: stem_to_task_def dict_of_pairs_def foldl_concat foldl_map)

lemma keyword_to_tasks_pairs:
  "keyword_to_tasks ts =
     dict_of_pairs (concat (map (\<lambda>t. map (\<lambda>kw. (kw, id_t t)) (extract_keywords (description t))) ts))"
  by (simp add: keyword_to_tasks_def dict_of_pairs_def foldl_concat foldl_map)

subsection \<open>The keyword strategy\<close>

lemma task_keywords_snoc:
  "task_keywords (ts @ [t]) = (task_keywords ts)(id_t t \<mapsto> extract_keywords (description t))"
  by (simp add: task_keywords_def)

lemma task_keywords_last:
  "task_keywords ts x =
     (if x \<in> id_t ` set ts
      then Some (extract_keywords (description (last (filter (\<lambda>t. id_t t = x) ts))))
      else None)"
proof (induction ts rule: rev_induct)
  case Nil
  then show ?case by (simp add: task_keywords_def)
next
  case (snoc t ts)
  then show ?case by (auto simp: task_keywords_snoc)
qed

lemma task_keywords_Some:
  assumes "task_keywords ts x = Some kws"
  shows "\<exists>t \<in> set ts. id_t t = x \<and> kws = extract_keywords (description t)"
proof -
  from assms have x: "x \<in> id_t ` set ts"
    and k: "kws = extract_keywords (description (last (filter (\<lambda>t. id_t t = x) ts)))"
    by (auto simp: task_keywords_last split: if_splits)
  from x have ne: "filter (\<lambda>t. id_t t = x) ts \<noteq> []"
    by (auto simp: filter_empty_conv)
  then have "last (filter (\<lambda>t. id_t t = x) ts) \<in> set (filter (\<lambda>t. id_t t = x) ts)"
    by (rule last_in_set)
  with k show ?thesis by auto
qed

lemma keyword_to_tasks_Some:
  assumes "map_of (keyword_to_tasks ts) kw = Some ids" and "i \<in> set ids"
  shows "\<exists>t \<in> set ts. id_t t = i \<and> kw \<in> set (extract_keywords (description t))"
proof -
  from assms have "i \<in> snd ` {p \<in> set (concat (map (\<lambda>t. map (\<lambda>kw. (kw, id_t t))
            (extract_keywords (description t))) ts)). fst p = kw}"
    by (auto simp: keyword_to_tasks_pairs map_of_dict_of_pairs split: if_splits)
  then show ?thesis by auto
qed

lemma dep_task_loop_edges:
  assumes "dep_task_loop tid kw req_kw ids deps0 = Inr deps"
  shows "deps = deps0 @ map (\<lambda>dep. keyword_dep tid dep kw req_kw)
            (filter (\<lambda>dep. dep \<noteq> tid \<and>
                key_lt (task_id_sort_key dep) (task_id_sort_key tid) = Inr True) ids)"
  using assms
proof (induction ids arbitrary: deps0)
  case Nil
  then show ?case by simp
next
  case (Cons a ids)
  show ?case
  proof (cases "a \<noteq> tid")
    case False
    with Cons.prems have "dep_task_loop tid kw req_kw ids deps0 = Inr deps" by simp
    from Cons.IH [OF this] False show ?thesis by simp
  next
    case True
    with Cons.prems obtain earlier where
      k: "key_lt (task_id_sort_key a) (task_id_sort_key tid) = Inr earlier"
      and l: "dep_task_loop tid kw req_kw ids
                (if earlier then deps0 @ [keyword_dep tid a kw req_kw] else deps0) = Inr deps"
      by (auto split: sum.splits)
    from Cons.IH [OF l] True k show ?thesis by (cases earlier) simp_all
  qed
qed

lemma req_kw_loop_edges:
  assumes "req_kw_loop k2t tid kw reqs deps0 = Inr deps" and "d \<in> set deps"
  shows "d \<in> set deps0 \<or>
         (\<exists>req_kw ids dep. req_kw \<in> set reqs \<and> map_of k2t req_kw = Some ids \<and> dep \<in> set ids \<and>
            dep \<noteq> tid \<and> key_lt (task_id_sort_key dep) (task_id_sort_key tid) = Inr True \<and>
            d = keyword_dep tid dep kw req_kw)"
  using assms
proof (induction reqs arbitrary: deps0)
  case Nil
  then show ?case by simp
next
  case (Cons r reqs)
  show ?case
  proof (cases "map_of k2t r")
    case None
    with Cons.prems have "req_kw_loop k2t tid kw reqs deps0 = Inr deps" by simp
    from Cons.IH [OF this Cons.prems(2)] show ?thesis by auto
  next
    case (Some ids)
    with Cons.prems obtain deps1 where 1: "dep_task_loop tid kw r ids deps0 = Inr deps1"
      and 2: "req_kw_loop k2t tid kw reqs deps1 = Inr deps"
      by (auto split: sum.splits)
    from Cons.IH [OF 2 Cons.prems(2)] dep_task_loop_edges [OF 1] Some
    show ?thesis by auto
  qed
qed

lemma kw_loop_edges:
  assumes "kw_loop k2t tid kws deps0 = Inr deps" and "d \<in> set deps"
  shows "d \<in> set deps0 \<or>
         (\<exists>kw req_kw ids dep. kw \<in> set kws \<and> req_kw \<in> set (required_kws kw) \<and>
            map_of k2t req_kw = Some ids \<and> dep \<in> set ids \<and>
            dep \<noteq> tid \<and> key_lt (task_id_sort_key dep) (task_id_sort_key tid) = Inr True \<and>
            d = keyword_dep tid dep kw req_kw)"
  using assms
proof (induction kws arbitrary: deps0)
  case Nil
  then show ?case by simp
next
  case (Cons kw kws)
  from Cons.prems obtain deps1 where
    1: "req_kw_loop k2t tid kw (required_kws kw) deps0 = Inr deps1"
    and 2: "kw_loop k2t tid kws deps1 = Inr deps"
    by (auto simp: required_kws_def split: sum.splits)
  from Cons.IH [OF 2 Cons.prems(2)] req_kw_loop_edges [OF 1]
  show ?case by (auto; blast)
qed

lemma keyword_task_loop_edges:
  assumes "keyword_task_loop k2t tk ts deps0 = Inr deps" and "d \<in> set deps"
  shows "d \<in> set deps0 \<or> (from_task d \<in> id_t ` set ts \<and> keyword_edge k2t tk d)"
  using assms
proof (induction ts arbitrary: deps0)
  case Nil
  then show ?case by simp
next
  case (Cons t ts)
  let ?kws = "case tk (id_t t) of None \<Rightarrow> [] | Some kws \<Rightarrow> kws"
  from Cons.prems obtain deps1 where
    1: "kw_loop k2t (id_t t) ?kws deps0 = Inr deps1"
    and 2: "keyword_task_loop k2t tk ts deps1 = Inr deps"
    by (auto split: sum.splits)
  from Cons.IH [OF 2 Cons.prems(2)]
  consider "d \<in> set deps1" | "from_task d \<in> id_t ` set ts \<and> keyword_edge k2t tk d" by blast
  then show ?case
  proof cases
    case 1
    from kw_loop_edges [OF \<open>kw_loop k2t (id_t t) ?kws deps0 = Inr deps1\<close> 1]
    show ?thesis
    proof
      assume "d \<in> set deps0" then show ?thesis ..
    next
      assume "\<exists>kw req_kw ids dep. kw \<in> set ?kws \<and> req_kw \<in> set (required_kws kw) \<and>
            map_of k2t req_kw = Some ids \<and> dep \<in> set ids \<and>
            dep \<noteq> id_t t \<and> key_lt (task_id_sort_key dep) (task_id_sort_key (id_t t)) = Inr True \<and>
            d = keyword_dep (id_t t) dep kw req_kw"
      then obtain kw req_kw ids dep where e: "kw \<in> set ?kws" "req_kw \<in> set (required_kws kw)"
        "map_of k2t req_kw = Some ids" "dep \<in> set ids" "dep \<noteq> id_t t"
        "key_lt (task_id_sort_key dep) (task_id_sort_key (id_t t)) = Inr True"
        "d = keyword_dep (id_t t) dep kw req_kw"
        by blast
      from e(1) obtain kws where k: "tk (id_t t) = Some kws" "kw \<in> set kws"
        by (cases "tk (id_t t)") auto
      have f: "from_task d = id_t t" "to_task d = dep" "confidence d = 50"
        using e(7) by (simp_all add: keyword_dep_def)
      have "keyword_edge k2t tk d"
        unfolding keyword_edge_def f
        using e k f by (intro conjI) (auto simp: f)
      with f show ?thesis by simp
    qed
  next
    case 2
    then show ?thesis by auto
  qed
qed

lemma infer_from_keywords_edge:
  assumes "infer_from_keywords ts = Inr deps" and "d \<in> set deps"
  shows "keyword_edge (keyword_to_tasks ts) (task_keywords ts) d"
  using keyword_task_loop_edges [of "keyword_to_tasks ts" "task_keywords ts" ts "[]" deps d] assms
  by (simp add: infer_from_keywords_def)

lemma required_kws_test: "required_kws ''test'' = []"
  by (simp add: required_kws_def keyword_deps_def)

text \<open>
  C6 (as amended). Every edge of the keyword strategy has confidence 50, joins two
  different identifiers, and goes to an identifier whose sort key is strictly smaller;
  some task with the identifier it leaves carries a category, some task with the
  identifier it reaches carries a category required by that one. The strategy keeps
  the matched categories per identifier, those of the last task with the identifier: an
  identifier whose last task matches only \<open>test\<close> has no outgoing edge.
\<close>

theorem keyword_edges_earlier:
  assumes "infer_from_keywords all_tasks = Inr deps"
  shows "(\<forall>d \<in> set deps.
            confidence d = 50 \<and> from_task d \<noteq> to_task d \<and>
            key_lt (task_id_sort_key (to_task d)) (task_id_sort_key (from_task d)) = Inr True \<and>
            (\<exists>task \<in> set all_tasks. \<exists>other \<in> set all_tasks. \<exists>kw req_kw.
               id_t task = from_task d \<and> id_t other = to_task d \<and>
               kw \<in> set (extract_keywords (description task)) \<and>
               req_kw \<in> set (required_kws kw) \<and>
               req_kw \<in> set (extract_keywords (description other)) \<and>
               d = keyword_dep (from_task d) (to_task d) kw req_kw)) \<and>
         (\<forall>task \<in> set all_tasks.
            extract_keywords (description (last (filter (\<lambda>t. id_t t = id_t task) all_tasks))) = [''test'']
            \<longrightarrow> (\<forall>d \<in> set deps. from_task d \<noteq> id_t task))"
proof (intro conjI ballI impI)
  fix d assume d: "d \<in> set deps"
  from infer_from_keywords_edge [OF assms d]
  have e: "keyword_edge (keyword_to_tasks all_tasks) (task_keywords all_tasks) d" .
  then show "confidence d = 50" and "from_task d \<noteq> to_task d"
    and "key_lt (task_id_sort_key (to_task d)) (task_id_sort_key (from_task d)) = Inr True"
    by (simp_all add: keyword_edge_def)
  from e obtain kws kw req_kw ids where
    k: "task_keywords all_tasks (from_task d) = Some kws" "kw \<in> set kws"
      "req_kw \<in> set (required_kws kw)"
      "map_of (keyword_to_tasks all_tasks) req_kw = Some ids" "to_task d \<in> set ids"
      "d = keyword_dep (from_task d) (to_task d) kw req_kw"
    unfolding keyword_edge_def by blast
  from task_keywords_Some [OF k(1)] obtain task where
    t: "task \<in> set all_tasks" "id_t task = from_task d" "kws = extract_keywords (description task)"
    by blast
  from keyword_to_tasks_Some [OF k(4) k(5)] obtain other where
    u: "other \<in> set all_tasks" "id_t other = to_task d"
      "req_kw \<in> set (extract_keywords (description other))"
    by blast
  from t u k(2,3,6)
  show "\<exists>task \<in> set all_tasks. \<exists>other \<in> set all_tasks. \<exists>kw req_kw.
               id_t task = from_task d \<and> id_t other = to_task d \<and>
               kw \<in> set (extract_keywords (description task)) \<and>
               req_kw \<in> set (required_kws kw) \<and>
               req_kw \<in> set (extract_keywords (description other)) \<and>
               d = keyword_dep (from_task d) (to_task d) kw req_kw"
    by blast
next
  fix task d
  assume task: "task \<in> set all_tasks"
    and test: "extract_keywords (description (last (filter (\<lambda>t. id_t t = id_t task) all_tasks))) = [''test'']"
    and d: "d \<in> set deps"
  show "from_task d \<noteq> id_t task"
  proof
    assume f: "from_task d = id_t task"
    from infer_from_keywords_edge [OF assms d] obtain kws kw req_kw where
      k: "task_keywords all_tasks (from_task d) = Some kws" "kw \<in> set kws"
        "req_kw \<in> set (required_kws kw)"
      unfolding keyword_edge_def by blast
    from k(1) task test have "kws = [''test'']"
      by (simp add: f task_keywords_last)
    with k(2,3) show False by (simp add: required_kws_test)
  qed
qed

lemma two_sections_keywords:
  "infer_from_keywords (concat (map tasks two_sections)) =
     Inr [keyword_dep ''1.2'' ''1.1'' ''mutation'' ''schema'']"
  by code_simp

theorem keyword_edges_earlier_witness:
  "infer_from_keywords (concat (map tasks two_sections)) =
     Inr [keyword_dep ''1.2'' ''1.1'' ''mutation'' ''schema''] \<and>
   key_lt (task_id_sort_key ''1.1'') (task_id_sort_key ''1.2'') = Inr True"
  using keyword_edges_earlier [OF two_sections_keywords] two_sections_keywords
  by (simp add: keyword_dep_def)

text \<open>
  The claim as stated, that a task whose only matched category is \<open>test\<close> contributes no
  edge, fails when a later task has the same identifier: the round of the loop for the
  test task then reads the categories of the later task and appends an edge of its own,
  so the edge appears twice, against once without the test task.
\<close>

theorem test_task_with_shared_id:
  "extract_keywords (description (task_of ''3.1'' ''Run tests'' [])) = [''test''] \<and>
   infer_from_keywords
     [task_of ''1.1'' ''schema'' [], task_of ''3.1'' ''Run tests'' [], task_of ''3.1'' ''Add mutation'' []] =
     Inr [keyword_dep ''3.1'' ''1.1'' ''mutation'' ''schema'',
          keyword_dep ''3.1'' ''1.1'' ''mutation'' ''schema''] \<and>
   infer_from_keywords [task_of ''1.1'' ''schema'' [], task_of ''3.1'' ''Add mutation'' []] =
     Inr [keyword_dep ''3.1'' ''1.1'' ''mutation'' ''schema'']"
  by code_simp

subsection \<open>The file pattern strategy\<close>

text \<open>
  C5. The claim is that the strategy never emits an edge from a task to itself. A task
  that lists \<open>user.ts\<close> and \<open>user.js\<close> is entered twice under the stem \<open>user\<close>; the
  group has two entries, and the strategy emits the edge from \<open>1.1\<close> to \<open>1.1\<close>.
\<close>

theorem file_pattern_self_edge:
  "infer_from_file_patterns [task_of ''1.1'' ''Add user'' [''user.ts'', ''user.js'']] =
     Inr [\<lparr>from_task = ''1.1'', to_task = ''1.1'', confidence = 85,
           reason = ''file pattern: shared stem '' @ apostrophe @ ''user'' @ apostrophe\<rparr>]"
  by code_simp

subsection \<open>The subsection strategy\<close>

subsubsection \<open>Identifiers and their keys\<close>

lemma match_part_digits:
  "match_part p = Some (g1, g2) \<Longrightarrow> takeWhile is_digit p \<noteq> []"
  by (auto simp: match_part_def Let_def split: if_splits)

lemma length_parse_parts:
  "length (fst (parse_parts ps nums sfx)) =
     length nums + length (filter (\<lambda>p. takeWhile is_digit p \<noteq> []) ps)"
proof (induction ps arbitrary: nums sfx)
  case Nil
  then show ?case by simp
next
  case (Cons p ps)
  show ?case
  proof (cases "match_part p")
    case None
    then show ?thesis by (simp add: Cons.IH Let_def)
  next
    case (Some g)
    obtain g1 g2 where g: "g = (g1, g2)" by (cases g)
    from Some g have "takeWhile is_digit p \<noteq> []" by (simp add: match_part_digits)
    with Some g show ?thesis by (simp add: Cons.IH)
  qed
qed

lemma digit_run_takeWhile: "digit_run p \<Longrightarrow> takeWhile is_digit p \<noteq> []"
  by (cases p) (auto simp: digit_run_def)

lemma in_set_butlast_or_last:
  "p \<in> set xs \<Longrightarrow> p \<in> set (butlast xs) \<or> p = last xs"
  by (induction xs) auto

lemma digit_run_butlast_takeWhile:
  "digit_run (butlast p) \<Longrightarrow> takeWhile is_digit p \<noteq> []"
  by (cases p) (auto simp: digit_run_def split: if_splits)

lemma valid_task_id_unfold:
  assumes "valid_task_id x"
  shows "length (py_split CHR ''.'' x) = 2 \<or> length (py_split CHR ''.'' x) = 3"
    and "list_all digit_run (butlast (py_split CHR ''.'' x))"
    and "digit_run (last (py_split CHR ''.'' x)) \<or>
         (digit_run (butlast (last (py_split CHR ''.'' x))) \<and>
          is_lower (last (last (py_split CHR ''.'' x))))"
  using assms unfolding valid_task_id_def Let_def by blast+

lemma valid_task_id_parts:
  assumes "valid_task_id x" and "p \<in> set (py_split CHR ''.'' x)"
  shows "takeWhile is_digit p \<noteq> []"
proof -
  let ?ps = "py_split CHR ''.'' x"
  from assms(2) have "p \<in> set (butlast ?ps) \<or> p = last ?ps"
    by (rule in_set_butlast_or_last)
  then show ?thesis
  proof
    assume "p \<in> set (butlast ?ps)"
    with valid_task_id_unfold(2) [OF assms(1)] have "digit_run p"
      by (simp add: list_all_iff)
    then show ?thesis by (rule digit_run_takeWhile)
  next
    assume p: "p = last ?ps"
    from valid_task_id_unfold(3) [OF assms(1)] show ?thesis
    proof
      assume "digit_run (last ?ps)"
      then show ?thesis unfolding p by (rule digit_run_takeWhile)
    next
      assume "digit_run (butlast (last ?ps)) \<and> is_lower (last (last ?ps))"
      then have "digit_run (butlast (last ?ps))" ..
      then show ?thesis unfolding p by (rule digit_run_butlast_takeWhile)
    qed
  qed
qed

lemma valid_task_id_length:
  assumes "valid_task_id x"
  shows "length (fst (parse_task_id x)) = 2 \<or> length (fst (parse_task_id x)) = 3"
proof -
  let ?ps = "py_split CHR ''.'' x"
  have "filter (\<lambda>p. takeWhile is_digit p \<noteq> []) ?ps = ?ps"
    using valid_task_id_parts [OF assms] by (simp add: filter_id_conv)
  then have "length (fst (parse_task_id x)) = length ?ps"
    by (simp add: parse_task_id_def length_parse_parts)
  moreover from assms have "length ?ps = 2 \<or> length ?ps = 3"
    by (rule valid_task_id_unfold(1))
  ultimately show ?thesis by simp
qed

subsubsection \<open>The subsection key determines all numeric parts but the last\<close>

lemma py_split_no_sep: "c \<notin> set w \<Longrightarrow> py_split c w = [w]"
  by (induction w) auto

lemma py_split_append_sep:
  "c \<notin> set w \<Longrightarrow> py_split c (w @ c # rest) = w # py_split c rest"
  by (induction w) (auto split: list.splits)

lemma py_split_join:
  assumes "ws \<noteq> []" and "\<forall>w \<in> set ws. c \<notin> set w"
  shows "py_split c (py_join [c] ws) = ws"
  using assms
proof (induction ws)
  case Nil
  then show ?case by simp
next
  case (Cons w ws)
  show ?case
  proof (cases ws)
    case Nil
    with Cons.prems show ?thesis by (simp add: py_split_no_sep)
  next
    case (Cons v vs)
    with Cons.prems Cons.IH have "py_split c (py_join [c] (v # vs)) = v # vs" by simp
    moreover from Cons.prems have "c \<notin> set w" by simp
    ultimately show ?thesis using Cons by (simp add: py_split_append_sep)
  qed
qed

lemma digits_to_nat_snoc:
  "digits_to_nat (s @ [c]) = 10 * digits_to_nat s + digit_val c"
  by (simp add: digits_to_nat_def)

lemma digit_val_digit_char: "d < 10 \<Longrightarrow> digit_val (digit_char d) = d"
  by (simp add: digit_val_def digit_char_def)

lemma digits_to_nat_str_nat: "digits_to_nat (str_nat n) = n"
proof (induction n rule: str_nat.induct)
  case (1 n)
  show ?case
  proof (cases "n < 10")
    case True
    then show ?thesis
      by (subst str_nat.simps) (simp add: digits_to_nat_def digit_val_digit_char)
  next
    case False
    with 1 show ?thesis
      by (subst str_nat.simps) (simp add: digits_to_nat_snoc digit_val_digit_char)
  qed
qed

lemma digit_char_not_dot: "d < 10 \<Longrightarrow> digit_char d \<noteq> CHR ''.''"
proof
  assume "d < 10" and "digit_char d = CHR ''.''"
  then have "(of_char (digit_char d) :: nat) = of_char CHR ''.''" by simp
  with \<open>d < 10\<close> show False by (simp add: digit_char_def)
qed

lemma str_nat_no_dot: "CHR ''.'' \<notin> set (str_nat n)"
proof (induction n rule: str_nat.induct)
  case (1 n)
  show ?case
  proof (cases "n < 10")
    case True
    then show ?thesis
      using digit_char_not_dot [of n] by (subst str_nat.simps) auto
  next
    case False
    with 1 show ?thesis
      using digit_char_not_dot [of "n mod 10"] by (subst str_nat.simps) auto
  qed
qed

lemma split_join_str_nat:
  assumes "ns \<noteq> []"
  shows "map digits_to_nat (py_split CHR ''.'' (py_join ''.'' (map str_nat ns))) = ns"
proof -
  have "py_split CHR ''.'' (py_join ''.'' (map str_nat ns)) = map str_nat ns"
    using assms by (intro py_split_join) (auto simp: str_nat_no_dot)
  then show ?thesis by (simp add: comp_def digits_to_nat_str_nat)
qed

lemma join_str_nat_inj:
  assumes "ns \<noteq> []" and "ms \<noteq> []"
    and "py_join ''.'' (map str_nat ns) = py_join ''.'' (map str_nat ms)"
  shows "ns = ms"
proof -
  have "ns = map digits_to_nat (py_split CHR ''.'' (py_join ''.'' (map str_nat ns)))"
    by (rule split_join_str_nat [OF assms(1), symmetric])
  also have "\<dots> = map digits_to_nat (py_split CHR ''.'' (py_join ''.'' (map str_nat ms)))"
    by (simp only: assms(3))
  also have "\<dots> = ms"
    by (rule split_join_str_nat [OF assms(2)])
  finally show ?thesis .
qed

lemma key_lt_same_length:
  "length xs = length ys \<Longrightarrow> \<exists>b. key_lt (xs, s) (ys, t) = Inr b"
  by (induction xs ys rule: list_induct2) auto

lemma comparable_same_subsection:
  assumes "2 \<le> length (fst (parse_task_id a))" and "2 \<le> length (fst (parse_task_id b))"
    and "get_subsection_key a = get_subsection_key b"
  shows "comparable a b"
proof -
  obtain xs s where a: "parse_task_id a = (xs, s)" by (cases "parse_task_id a")
  obtain ys t where b: "parse_task_id b = (ys, t)" by (cases "parse_task_id b")
  from assms a b have len: "2 \<le> length xs" "2 \<le> length ys"
    and k: "py_join ''.'' (map str_nat (butlast xs)) = py_join ''.'' (map str_nat (butlast ys))"
    by (simp_all add: get_subsection_key_def)
  from len(1) have nx: "butlast xs \<noteq> []" by (cases xs) auto
  from len(2) have ny: "butlast ys \<noteq> []" by (cases ys) auto
  from nx ny k have "butlast xs = butlast ys" by (rule join_str_nat_inj)
  then have "length (butlast xs) = length (butlast ys)" by simp
  with len have "length xs = length ys" by simp
  from key_lt_same_length [OF this] obtain r where "key_lt (xs, s) (ys, t) = Inr r" by blast
  then show ?thesis
    by (simp add: comparable_def task_id_sort_key_def a b)
qed


lemma set_insort_id: "set (insort_id x ys) = insert x (set ys)"
  by (induction ys) auto

lemma length_insort_id: "length (insort_id x ys) = Suc (length ys)"
  by (induction ys) auto

lemma set_sorted_ids: "set (foldr insort_id xs []) = set xs"
  by (induction xs) (simp_all add: set_insort_id)

lemma length_sorted_ids: "length (foldr insort_id xs []) = length xs"
  by (induction xs) (simp_all add: length_insort_id)

lemma py_sorted_Inr:
  "py_sorted xs = Inr s \<longleftrightarrow>
     s = foldr insort_id xs [] \<and> (\<forall>a \<in> set xs. \<forall>b \<in> set xs. comparable a b)"
  by (auto simp: py_sorted_def list_all_iff)

lemma subsection_loop_Inr:
  assumes "subsection_loop gs deps0 = Inr deps"
  shows "deps = deps0 @ concat (map (\<lambda>(k, ids).
            if length ids < 2 then []
            else map (subsection_dep k (foldr insort_id ids [])) [1..<length ids]) gs)"
  using assms
proof (induction gs arbitrary: deps0)
  case Nil
  then show ?case by simp
next
  case (Cons g gs)
  obtain k ids where g: "g = (k, ids)" by (cases g)
  show ?case
  proof (cases "length ids < 2")
    case True
    with Cons.prems g have "subsection_loop gs deps0 = Inr deps" by simp
    from Cons.IH [OF this] True g show ?thesis by simp
  next
    case False
    with Cons.prems g obtain s where s: "py_sorted ids = Inr s"
      and l: "subsection_loop gs (deps0 @ map (subsection_dep k s) [1..<length s]) = Inr deps"
      by (auto split: sum.splits)
    from s have "s = foldr insort_id ids []" by (simp add: py_sorted_Inr)
    with Cons.IH [OF l] False g show ?thesis by (simp add: length_sorted_ids)
  qed
qed

lemma subsection_loop_total:
  assumes "\<forall>g \<in> set gs. \<forall>a \<in> set (snd g). \<forall>b \<in> set (snd g). comparable a b"
  shows "\<exists>deps. subsection_loop gs deps0 = Inr deps"
  using assms
proof (induction gs arbitrary: deps0)
  case Nil
  then show ?case by simp
next
  case (Cons g gs)
  obtain k ids where g: "g = (k, ids)" by (cases g)
  from Cons.prems g have "py_sorted ids = Inr (foldr insort_id ids [])"
    by (simp add: py_sorted_Inr)
  moreover from Cons.prems have "\<forall>g \<in> set gs. \<forall>a \<in> set (snd g). \<forall>b \<in> set (snd g). comparable a b"
    by simp
  ultimately show ?case using Cons.IH g by simp
qed

lemma subsection_group:
  "map snd (filter (\<lambda>p. fst p = k) (map (\<lambda>t. (get_subsection_key (id_t t), id_t t)) ts)) =
     filter (\<lambda>x. get_subsection_key x = k) (map id_t ts)"
  by (induction ts) auto

lemma subsection_tasks_entry:
  "(k, ids) \<in> set (subsection_tasks ts) \<longleftrightarrow>
     k \<in> get_subsection_key ` id_t ` set ts \<and>
     ids = filter (\<lambda>x. get_subsection_key x = k) (map id_t ts)"
  unfolding subsection_tasks_pairs dict_of_pairs_entry subsection_group
  by (auto simp: image_iff)

lemma filter_long_nonempty: "2 \<le> length (filter P xs) \<Longrightarrow> \<exists>x \<in> set xs. P x"
  by (induction xs) (auto split: if_splits)

lemma long_group_key:
  assumes "2 \<le> length (filter (\<lambda>x. get_subsection_key x = k) (map id_t ts))"
  shows "k \<in> get_subsection_key ` id_t ` set ts"
proof -
  from filter_long_nonempty [OF assms] obtain x where "x \<in> set (map id_t ts)"
    and "get_subsection_key x = k"
    by blast
  then show ?thesis by auto
qed

lemma subsection_edge_iff:
  assumes "infer_from_subsection_order ts = Inr deps"
  shows "d \<in> set deps \<longleftrightarrow>
     (\<exists>k i. 2 \<le> length (filter (\<lambda>x. get_subsection_key x = k) (map id_t ts)) \<and>
        1 \<le> i \<and> i < length (filter (\<lambda>x. get_subsection_key x = k) (map id_t ts)) \<and>
        d = subsection_dep k
              (foldr insort_id (filter (\<lambda>x. get_subsection_key x = k) (map id_t ts)) []) i)"
proof -
  define grp where "grp = (\<lambda>k. filter (\<lambda>x. get_subsection_key x = k) (map id_t ts))"
  define f where "f = (\<lambda>(k :: string, ids). if length ids < 2 then []
            else map (subsection_dep k (foldr insort_id ids [])) [1..<length ids])"
  have entry: "(k, ids) \<in> set (subsection_tasks ts) \<longleftrightarrow>
      k \<in> get_subsection_key ` id_t ` set ts \<and> ids = grp k" for k ids
    unfolding grp_def by (rule subsection_tasks_entry)
  have key: "k \<in> get_subsection_key ` id_t ` set ts" if "2 \<le> length (grp k)" for k
    using that unfolding grp_def by (rule long_group_key)
  from assms have deps: "deps = concat (map f (subsection_tasks ts))"
    using subsection_loop_Inr [of "subsection_tasks ts" "[]" deps]
    by (simp add: infer_from_subsection_order_def f_def)
  have f: "d \<in> set (f (k, ids)) \<longleftrightarrow>
      2 \<le> length ids \<and> (\<exists>i. 1 \<le> i \<and> i < length ids \<and> d = subsection_dep k (foldr insort_id ids []) i)"
    for k ids
    by (auto simp: f_def)
  have "d \<in> set deps \<longleftrightarrow> (\<exists>k ids. (k, ids) \<in> set (subsection_tasks ts) \<and> d \<in> set (f (k, ids)))"
    unfolding deps by auto
  also have "\<dots> \<longleftrightarrow> (\<exists>k. k \<in> get_subsection_key ` id_t ` set ts \<and> d \<in> set (f (k, grp k)))"
    unfolding entry by blast
  also have "\<dots> \<longleftrightarrow> (\<exists>k. d \<in> set (f (k, grp k)))"
  proof
    assume "\<exists>k. k \<in> get_subsection_key ` id_t ` set ts \<and> d \<in> set (f (k, grp k))"
    then show "\<exists>k. d \<in> set (f (k, grp k))" by blast
  next
    assume "\<exists>k. d \<in> set (f (k, grp k))"
    then obtain k where k: "d \<in> set (f (k, grp k))" ..
    then have "2 \<le> length (grp k)" by (simp only: f)
    then have "k \<in> get_subsection_key ` id_t ` set ts" by (rule key)
    with k show "\<exists>k. k \<in> get_subsection_key ` id_t ` set ts \<and> d \<in> set (f (k, grp k))"
      by blast
  qed
  also have "\<dots> \<longleftrightarrow> (\<exists>k i. 2 \<le> length (grp k) \<and> 1 \<le> i \<and> i < length (grp k) \<and>
        d = subsection_dep k (foldr insort_id (grp k) []) i)"
    by (simp only: f ex_simps)
  finally show ?thesis unfolding grp_def .
qed

lemma subsection_order_total:
  assumes "list_all (\<lambda>task. valid_task_id (id_t task)) ts"
  shows "\<exists>deps. infer_from_subsection_order ts = Inr deps"
    and "\<forall>a \<in> set (filter (\<lambda>x. get_subsection_key x = k) (map id_t ts)).
         \<forall>b \<in> set (filter (\<lambda>x. get_subsection_key x = k) (map id_t ts)). comparable a b"
proof -
  have len: "2 \<le> length (fst (parse_task_id x))" if "x \<in> id_t ` set ts" for x
  proof -
    from that assms have "valid_task_id x" by (auto simp: list_all_iff)
    from valid_task_id_length [OF this] show ?thesis by auto
  qed
  have cmp: "comparable a b"
    if "a \<in> id_t ` set ts" "b \<in> id_t ` set ts" "get_subsection_key a = get_subsection_key b"
    for a b
    using that by (intro comparable_same_subsection len)
  show "\<forall>a \<in> set (filter (\<lambda>x. get_subsection_key x = k) (map id_t ts)).
         \<forall>b \<in> set (filter (\<lambda>x. get_subsection_key x = k) (map id_t ts)). comparable a b"
    using cmp by auto
  have "\<forall>g \<in> set (subsection_tasks ts). \<forall>a \<in> set (snd g). \<forall>b \<in> set (snd g). comparable a b"
  proof (intro ballI)
    fix g a b
    assume g: "g \<in> set (subsection_tasks ts)" and a: "a \<in> set (snd g)" and b: "b \<in> set (snd g)"
    obtain k ids where kids: "g = (k, ids)" by (cases g)
    from g kids have "ids = filter (\<lambda>x. get_subsection_key x = k) (map id_t ts)"
      by (simp add: subsection_tasks_entry)
    with a b kids show "comparable a b" using cmp by auto
  qed
  from subsection_loop_total [OF this]
  show "\<exists>deps. infer_from_subsection_order ts = Inr deps"
    by (simp add: infer_from_subsection_order_def)
qed

lemma subsection_dep_ends:
  assumes "1 \<le> i" and "i < length ids"
  shows "from_task (subsection_dep k (foldr insort_id ids []) i) \<in> set ids"
    and "to_task (subsection_dep k (foldr insort_id ids []) i) \<in> set ids"
proof -
  let ?s = "foldr insort_id ids []"
  from assms have "i < length ?s" "i - 1 < length ?s" by (simp_all add: length_sorted_ids)
  then have "?s ! i \<in> set ?s" "?s ! (i - 1) \<in> set ?s" by (simp_all only: nth_mem)
  then show "from_task (subsection_dep k ?s i) \<in> set ids"
    and "to_task (subsection_dep k ?s i) \<in> set ids"
    by (simp_all add: subsection_dep_def set_sorted_ids)
qed

lemma str_lt_order: "str_lt s t \<longleftrightarrow> (map of_char s :: nat list) < map of_char t"
  by (induction s t rule: str_lt.induct) auto

lemma key_lt_order:
  "key_lt k l = Inr r \<Longrightarrow> r = (key_order k < key_order l)"
proof (induction k l rule: key_lt.induct)
  case (1 s t)
  then show ?case by (auto simp: key_order_def str_lt_order less_prod_def)
next
  case (2 s y ys t)
  then show ?case by simp
next
  case (3 x xs s t)
  then show ?case by simp
next
  case (4 x xs s y ys t)
  then show ?case
    by (cases "x = y") (auto simp: key_order_def less_prod_def)
qed

lemma id_lt_order:
  assumes "comparable a b"
  shows "id_lt a b \<longleftrightarrow> key_order (task_id_sort_key a) < key_order (task_id_sort_key b)"
proof -
  from assms obtain r where r: "key_lt (task_id_sort_key a) (task_id_sort_key b) = Inr r"
    by (auto simp: comparable_def split: sum.splits)
  from key_lt_order [OF r] r show ?thesis by (simp add: id_lt_def)
qed

lemma insort_id_insort_key:
  assumes "\<forall>y \<in> set ys. comparable y x"
  shows "insort_id x ys = insort_key (\<lambda>a. key_order (task_id_sort_key a)) x ys"
  using assms by (induction ys) (auto simp: id_lt_order)

lemma sorted_ids_sort_key:
  assumes "\<forall>a \<in> set xs. \<forall>b \<in> set xs. comparable a b"
  shows "foldr insort_id xs [] = sort_key (\<lambda>a. key_order (task_id_sort_key a)) xs"
  using assms
proof (induction xs)
  case Nil
  then show ?case by simp
next
  case (Cons x xs)
  then have "foldr insort_id xs [] = sort_key (\<lambda>a. key_order (task_id_sort_key a)) xs" by simp
  moreover from Cons.prems have "\<forall>y \<in> set (foldr insort_id xs []). comparable y x"
    by (simp add: set_sorted_ids)
  ultimately show ?case by (simp add: insort_id_insort_key)
qed

lemma py_sorted_sorted:
  assumes "py_sorted xs = Inr s"
  shows "sorted_wrt (\<lambda>a b. \<not> id_lt b a) s" and "set s = set xs" and "length s = length xs"
    and "\<And>k. filter (\<lambda>a. task_id_sort_key a = k) s = filter (\<lambda>a. task_id_sort_key a = k) xs"
proof -
  let ?f = "\<lambda>a. key_order (task_id_sort_key a)"
  from assms have s: "s = foldr insort_id xs []"
    and cmp: "\<forall>a \<in> set xs. \<forall>b \<in> set xs. comparable a b"
    by (simp_all add: py_sorted_Inr)
  from s cmp have sk: "s = sort_key ?f xs" by (simp add: sorted_ids_sort_key)
  show "set s = set xs" "length s = length xs" by (simp_all add: sk)
  have "sorted (map ?f s)" by (simp add: sk)
  then have sw: "sorted_wrt (\<lambda>a b. ?f a \<le> ?f b) s" by (simp add: sorted_map)
  show "sorted_wrt (\<lambda>a b. \<not> id_lt b a) s"
  proof (rule sorted_wrt_mono_rel [where P = "\<lambda>a b. ?f a \<le> ?f b"])
    fix a b
    assume "a \<in> set s" "b \<in> set s" and le: "?f a \<le> ?f b"
    with cmp have "comparable b a" by (simp add: sk)
    from id_lt_order [OF this] le show "\<not> id_lt b a" by (simp add: not_less)
  next
    show "sorted_wrt (\<lambda>a b. ?f a \<le> ?f b) s" by (rule sw)
  qed
  show "filter (\<lambda>a. task_id_sort_key a = k) s = filter (\<lambda>a. task_id_sort_key a = k) xs" for k
  proof -
    have "filter (\<lambda>a. ?f a = key_order k) s = filter (\<lambda>a. ?f a = key_order k) xs"
      unfolding sk by (rule sort_key_stable)
    then have "filter (\<lambda>a. task_id_sort_key a = k) (filter (\<lambda>a. ?f a = key_order k) s) =
          filter (\<lambda>a. task_id_sort_key a = k) (filter (\<lambda>a. ?f a = key_order k) xs)"
      by simp
    moreover have "(task_id_sort_key a = k \<and> ?f a = key_order k) = (task_id_sort_key a = k)" for a
      by auto
    ultimately show ?thesis by (simp only: filter_filter conj_commute)
  qed
qed

text \<open>
  C2. With identifiers as the grammar of task lines allows, the subsection strategy
  returns. For two identifiers \<open>a\<close> and \<open>b\<close> of one subsection with the key of \<open>a\<close>
  below that of \<open>b\<close>, it emits the edge from \<open>b\<close> to \<open>a\<close> (with confidence 90) if and
  only if \<open>a\<close> stands right before \<open>b\<close> in the sorted group of that subsection, and a
  group of fewer than two tasks is at neither end of any edge. The sorted group is the
  group in non-decreasing order of keys, identifiers of equal key in document order.
\<close>

theorem subsection_order_adjacent:
  assumes "list_all (\<lambda>task. valid_task_id (id_t task)) all_tasks"
    and "key_lt (task_id_sort_key a) (task_id_sort_key b) = Inr True"
    and "get_subsection_key a = get_subsection_key b"
  shows "\<exists>deps sorted_ids.
           infer_from_subsection_order all_tasks = Inr deps \<and>
           py_sorted (filter (\<lambda>x. get_subsection_key x = get_subsection_key a) (map id_t all_tasks))
             = Inr sorted_ids \<and>
           sorted_wrt (\<lambda>x y. \<not> id_lt y x) sorted_ids \<and>
           (\<forall>key. filter (\<lambda>x. task_id_sort_key x = key) sorted_ids =
                  filter (\<lambda>x. task_id_sort_key x = key)
                    (filter (\<lambda>x. get_subsection_key x = get_subsection_key a) (map id_t all_tasks))) \<and>
           ((\<exists>d \<in> set deps. from_task d = b \<and> to_task d = a \<and> confidence d = 90) \<longleftrightarrow>
            (\<exists>i. Suc i < length sorted_ids \<and> sorted_ids ! i = a \<and> sorted_ids ! Suc i = b)) \<and>
           (\<forall>k. length (filter (\<lambda>x. get_subsection_key x = k) (map id_t all_tasks)) < 2 \<longrightarrow>
                (\<forall>d \<in> set deps. get_subsection_key (from_task d) \<noteq> k \<and>
                                 get_subsection_key (to_task d) \<noteq> k))"
proof -
  define grp where "grp = (\<lambda>k. filter (\<lambda>x. get_subsection_key x = k) (map id_t all_tasks))"
  define s where "s = foldr insort_id (grp (get_subsection_key a)) []"
  from subsection_order_total(1) [OF assms(1)] obtain deps
    where deps: "infer_from_subsection_order all_tasks = Inr deps" ..
  have cmp: "\<forall>x \<in> set (grp (get_subsection_key a)). \<forall>y \<in> set (grp (get_subsection_key a)). comparable x y"
    unfolding grp_def by (rule subsection_order_total(2) [OF assms(1)])
  have sorted: "py_sorted (grp (get_subsection_key a)) = Inr s"
    using cmp by (simp only: py_sorted_Inr s_def)
  have len: "length s = length (grp (get_subsection_key a))"
    by (simp add: s_def length_sorted_ids)
  have edge: "d \<in> set deps \<longleftrightarrow>
      (\<exists>k i. 2 \<le> length (grp k) \<and> 1 \<le> i \<and> i < length (grp k) \<and>
         d = subsection_dep k (foldr insort_id (grp k) []) i)" for d
    unfolding grp_def by (rule subsection_edge_iff [OF deps])
  have mem: "get_subsection_key x = k" if "x \<in> set (grp k)" for x k
    using that by (simp add: grp_def)
  have 1: "(\<exists>d \<in> set deps. from_task d = b \<and> to_task d = a \<and> confidence d = 90) \<longleftrightarrow>
            (\<exists>i. Suc i < length s \<and> s ! i = a \<and> s ! Suc i = b)"
  proof
    assume "\<exists>d \<in> set deps. from_task d = b \<and> to_task d = a \<and> confidence d = 90"
    then obtain d where d: "d \<in> set deps" "from_task d = b" "to_task d = a" by blast
    from d(1) obtain k i where k: "2 \<le> length (grp k)" "1 \<le> i" "i < length (grp k)"
      and e: "d = subsection_dep k (foldr insort_id (grp k) []) i"
      unfolding edge by blast
    from subsection_dep_ends(1) [OF k(2,3), of k] d(2) e have "b \<in> set (grp k)" by simp
    then have "get_subsection_key b = k" by (rule mem)
    with assms(3) have ka: "k = get_subsection_key a" by simp
    from e have "from_task d = s ! i" "to_task d = s ! (i - 1)"
      by (simp_all add: subsection_dep_def s_def ka)
    with d(2,3) have "s ! (i - 1) = a" "s ! Suc (i - 1) = b" using k(2) by simp_all
    moreover from k(2,3) have "Suc (i - 1) < length s" by (simp add: len ka)
    ultimately show "\<exists>i. Suc i < length s \<and> s ! i = a \<and> s ! Suc i = b" by blast
  next
    assume "\<exists>i. Suc i < length s \<and> s ! i = a \<and> s ! Suc i = b"
    then obtain i where i: "Suc i < length s" "s ! i = a" "s ! Suc i = b" by blast
    let ?d = "subsection_dep (get_subsection_key a) s (Suc i)"
    from i(1) have "2 \<le> length (grp (get_subsection_key a))" "1 \<le> Suc i"
      "Suc i < length (grp (get_subsection_key a))"
      by (simp_all add: len)
    then have "?d \<in> set deps" unfolding edge s_def by blast
    moreover have "from_task ?d = b" "to_task ?d = a" "confidence ?d = 90"
      using i(2,3) by (simp_all add: subsection_dep_def)
    ultimately show "\<exists>d \<in> set deps. from_task d = b \<and> to_task d = a \<and> confidence d = 90"
      by blast
  qed
  have 2: "\<forall>k. length (grp k) < 2 \<longrightarrow>
                (\<forall>d \<in> set deps. get_subsection_key (from_task d) \<noteq> k \<and>
                                 get_subsection_key (to_task d) \<noteq> k)"
  proof (intro allI impI ballI)
    fix k d
    assume short: "length (grp k) < 2" and d: "d \<in> set deps"
    from d obtain k' i where k: "2 \<le> length (grp k')" "1 \<le> i" "i < length (grp k')"
      and e: "d = subsection_dep k' (foldr insort_id (grp k') []) i"
      unfolding edge by blast
    from subsection_dep_ends [OF k(2,3), of k'] e
    have "from_task d \<in> set (grp k')" "to_task d \<in> set (grp k')" by simp_all
    then have "get_subsection_key (from_task d) = k'" "get_subsection_key (to_task d) = k'"
      by (simp_all only: mem)
    moreover from short k(1) have "k' \<noteq> k" by auto
    ultimately show "get_subsection_key (from_task d) \<noteq> k \<and> get_subsection_key (to_task d) \<noteq> k"
      by simp
  qed
  have 3: "sorted_wrt (\<lambda>x y. \<not> id_lt y x) s"
    by (rule py_sorted_sorted(1) [OF sorted])
  have 4: "\<forall>key. filter (\<lambda>x. task_id_sort_key x = key) s =
                  filter (\<lambda>x. task_id_sort_key x = key) (grp (get_subsection_key a))"
    by (intro allI py_sorted_sorted(4) [OF sorted])
  from deps sorted 1 2 3 4 show ?thesis
    unfolding grp_def by (intro exI [of _ deps] exI [of _ s] conjI)
qed

lemma two_sections_valid:
  "list_all (\<lambda>task. valid_task_id (id_t task)) (concat (map tasks two_sections))"
  by code_simp

lemma two_sections_subsection_order:
  "infer_from_subsection_order (concat (map tasks two_sections)) = Inr [edge_12_11]"
  by code_simp

theorem subsection_order_adjacent_witness:
  "list_all (\<lambda>task. valid_task_id (id_t task)) (concat (map tasks two_sections)) \<and>
   key_lt (task_id_sort_key ''1.1'') (task_id_sort_key ''1.2'') = Inr True \<and>
   get_subsection_key ''1.1'' = get_subsection_key ''1.2'' \<and>
   infer_from_subsection_order (concat (map tasks two_sections)) = Inr [edge_12_11] \<and>
   py_sorted (filter (\<lambda>x. get_subsection_key x = get_subsection_key ''1.1'')
                (map id_t (concat (map tasks two_sections)))) = Inr [''1.1'', ''1.2'']"
proof -
  have 1: "key_lt (task_id_sort_key ''1.1'') (task_id_sort_key ''1.2'') = Inr True"
    by code_simp
  have 2: "get_subsection_key ''1.1'' = get_subsection_key ''1.2''"
    by code_simp
  have 3: "py_sorted (filter (\<lambda>x. get_subsection_key x = get_subsection_key ''1.1'')
                (map id_t (concat (map tasks two_sections)))) = Inr [''1.1'', ''1.2'']"
    by code_simp
  from subsection_order_adjacent [OF two_sections_valid 1 2]
    two_sections_valid 1 2 3 two_sections_subsection_order
  show ?thesis by simp
qed

section \<open>Properties of the parser\<close>

subsection \<open>Declared dependencies\<close>

lemma foldl_append_concat:
  "foldl (\<lambda>acc x. acc @ f x) acc xs = acc @ concat (map f xs)"
  by (induction xs arbitrary: acc) auto

lemma validate_dependencies_concat:
  "validate_dependencies secs =
     concat (map (\<lambda>section. concat (map (\<lambda>task.
        concat (map (\<lambda>dep. if dep \<notin> all_task_ids secs then [unknown_dependency_error (id_t task) dep] else [])
          (depends_on task))) (tasks section))) secs)"
proof -
  have inner: "\<And>task. (\<lambda>errs dep. if dep \<notin> all_task_ids secs then errs @ [unknown_dependency_error (id_t task) dep] else errs)
      = (\<lambda>errs dep. errs @ (if dep \<notin> all_task_ids secs then [unknown_dependency_error (id_t task) dep] else []))"
    by (intro ext) simp
  show ?thesis
    unfolding validate_dependencies_def inner foldl_append_concat
    by simp
qed

lemma concat_map_if_filter:
  "concat (map (\<lambda>x. if P x then [f x] else []) xs) = map f (filter P xs)"
  by (induction xs) auto

lemma concat_concat_map:
  "concat (map (\<lambda>x. concat (map f (g x))) xs) = concat (map f (concat (map g xs)))"
  by (induction xs) auto

lemma map_concat_map: "map f (concat (map g xs)) = concat (map (\<lambda>x. map f (g x)) xs)"
  by (induction xs) auto

lemma filter_concat_map: "filter P (concat (map g xs)) = concat (map (\<lambda>x. filter P (g x)) xs)"
  by (induction xs) auto

text \<open>
  C9. \<open>validate_dependencies\<close> returns, in document order, one error for every declared
  dependency of every task that is not the identifier of a task of some section, and
  nothing else; so it returns the empty list exactly when every declared dependency is
  the identifier of a task.
\<close>

theorem validate_dependencies_unknown:
  "validate_dependencies secs =
     map (\<lambda>(task, dep). unknown_dependency_error (id_t task) dep)
       (filter (\<lambda>(task, dep). dep \<notin> all_task_ids secs)
          (concat (map (\<lambda>task. map (Pair task) (depends_on task)) (concat (map tasks secs)))))
   \<and> (validate_dependencies secs = [] \<longleftrightarrow>
        (\<forall>section \<in> set secs. \<forall>task \<in> set (tasks section). \<forall>dep \<in> set (depends_on task).
           \<exists>s \<in> set secs. \<exists>t \<in> set (tasks s). id_t t = dep))"
proof -
  have eq: "validate_dependencies secs =
     map (\<lambda>(task, dep). unknown_dependency_error (id_t task) dep)
       (filter (\<lambda>(task, dep). dep \<notin> all_task_ids secs)
          (concat (map (\<lambda>task. map (Pair task) (depends_on task)) (concat (map tasks secs)))))"
  proof -
    have aux: "map (\<lambda>(task, dep). unknown_dependency_error (id_t task) dep)
       (filter (\<lambda>(task, dep). dep \<notin> all_task_ids secs)
          (concat (map (\<lambda>task. map (Pair task) (depends_on task)) T)))
      = concat (map (\<lambda>task. map (unknown_dependency_error (id_t task))
                  (filter (\<lambda>dep. dep \<notin> all_task_ids secs) (depends_on task))) T)" for T
      by (induction T) (simp_all add: filter_map comp_def)
    show ?thesis
      by (simp only: validate_dependencies_concat concat_map_if_filter concat_concat_map aux)
  qed
  have ids: "all_task_ids secs = {d. \<exists>s \<in> set secs. \<exists>t \<in> set (tasks s). id_t t = d}"
    by (auto simp: all_task_ids_def)
  have "validate_dependencies secs = [] \<longleftrightarrow>
        (\<forall>section \<in> set secs. \<forall>task \<in> set (tasks section). \<forall>dep \<in> set (depends_on task).
           dep \<in> all_task_ids secs)"
    unfolding validate_dependencies_concat by auto
  with eq show ?thesis unfolding ids by simp
qed

theorem validate_dependencies_unknown_witness:
  "validate_dependencies two_sections = [] \<and>
   validate_dependencies dangling_dependency = [''Task 1.2 depends on unknown task '' @ apostrophe @ ''9.9'' @ apostrophe]"
  using validate_dependencies_unknown [of two_sections] validate_dependencies_unknown [of dangling_dependency]
  by (simp add: two_sections_def dangling_dependency_def task_of_def all_task_ids_def unknown_dependency_error_def)

subsection \<open>Task lines\<close>

lemma py_split_not_Nil [simp]: "py_split c s \<noteq> []"
  by (induction s) (auto split: list.splits)

lemma valid_task_id_first_part:
  assumes "valid_task_id tid"
  shows "digit_run (hd (py_split CHR ''.'' tid))"
proof -
  let ?ps = "py_split CHR ''.'' tid"
  from assms have len: "length ?ps = 2 \<or> length ?ps = 3" and all: "list_all digit_run (butlast ?ps)"
    by (auto simp: valid_task_id_def Let_def)
  from len have "butlast ?ps \<noteq> []" by (cases ?ps) auto
  then have "hd ?ps = hd (butlast ?ps)" by (cases ?ps) auto
  with all \<open>butlast ?ps \<noteq> []\<close> show ?thesis
    by (cases "butlast ?ps") auto
qed

lemma parse_task_eq:
  assumes "wf_task_match tm"
  shows "parse_task section_num tm errs warns =
           Inr (task_of_match tm, errs @ task_errors section_num tm, warns @ task_warnings tm)"
  using valid_task_id_first_part [of "task_id tm"] assms
  by (auto simp: parse_task_def py_int_def wf_task_match_def task_of_match_def task_errors_def
        task_warnings_def Let_def split: option.splits prod.splits)

lemma task_loop_eq:
  assumes "list_all wf_task_match tms"
  shows "task_loop section_num tms acc errs warns =
           Inr (acc @ map task_of_match tms, errs @ concat (map (task_errors section_num) tms),
                warns @ concat (map task_warnings tms))"
  using assms by (induction tms arbitrary: acc errs warns) (simp_all add: parse_task_eq)

lemma section_loop_eq:
  assumes "list_all wf_section_match ms"
  shows "section_loop ms secs errs warns =
           Inr \<lparr>sections = secs @ map section_of_match ms,
                errors = errs @ concat (map section_errors ms),
                warnings = warns @ concat (map section_warnings ms)\<rparr>"
  using assms
  by (induction ms arbitrary: secs errs warns)
     (simp_all add: wf_section_match_def py_int_def task_loop_eq section_of_match_def
        section_errors_def section_warnings_def Let_def)

lemma parse_tasks_md_eq:
  assumes "list_all wf_section_match ms" and "ms \<noteq> []"
  shows "parse_tasks_md ms =
           Inr \<lparr>sections = map section_of_match ms,
                errors = concat (map section_errors ms),
                warnings = concat (map section_warnings ms)\<rparr>"
  using assms by (simp add: parse_tasks_md_def section_loop_eq)

lemma parse_tasks_md_wf:
  assumes "list_all wf_section_match ms"
  obtains r where "parse_tasks_md ms = Inr r"
    and "sections r = map section_of_match ms"
    and "warnings r = concat (map section_warnings ms)"
    and "set (concat (map section_errors ms)) \<subseteq> set (errors r)"
proof (cases "ms = []")
  case True
  then show ?thesis using that by (simp add: parse_tasks_md_def)
next
  case False
  with assms show ?thesis using that by (simp add: parse_tasks_md_eq)
qed

lemma complexity_task_of_match:
  "complexity (task_of_match tm) =
     (case complexity_group tm of
        None \<Rightarrow> ''medium''
      | Some v \<Rightarrow>
          if v \<noteq> [] \<and> py_lower (py_strip v) \<in> set [''low'', ''medium'', ''high'']
          then py_lower (py_strip v) else ''medium'')"
  by (simp add: task_of_match_def parse_complexity_def Let_def split: option.splits)

lemma task_warnings_eq:
  "task_warnings tm =
     (case files_str tm of
        None \<Rightarrow> [missing_files_warning (task_id tm)]
      | Some v \<Rightarrow> if v = [] then [missing_files_warning (task_id tm)] else [])
     @ (case complexity_group tm of
          None \<Rightarrow> []
        | Some v \<Rightarrow>
            if v \<noteq> [] \<and> py_lower (py_strip v) \<notin> set [''low'', ''medium'', ''high'']
            then [invalid_complexity_warning (task_id tm) (py_lower (py_strip v))] else [])"
  by (simp add: task_warnings_def parse_complexity_def parse_list_def Let_def split: option.splits)

text \<open>
  C4 (as amended). A complexity annotation whose value, stripped and in lower case, is
  not one of low, medium and high gives the task the complexity medium and adds one
  warning; a missing annotation gives the complexity medium and adds no warning; a valid
  one gives its stripped, lower-case value and adds no warning. The warnings of the
  result are, line by line, the warning for missing files and the warning for an
  invalid complexity, followed per section by the warning for a section with no task.
\<close>

theorem complexity_annotation:
  assumes "list_all wf_section_match ms"
  shows "\<exists>r. parse_tasks_md ms = Inr r \<and>
     (\<forall>i<length ms. \<forall>j<length (task_matches (ms ! i)).
        complexity (tasks (sections r ! i) ! j) =
          (case complexity_group (task_matches (ms ! i) ! j) of
             None \<Rightarrow> ''medium''
           | Some v \<Rightarrow>
               if v \<noteq> [] \<and> py_lower (py_strip v) \<in> set [''low'', ''medium'', ''high'']
               then py_lower (py_strip v) else ''medium'')) \<and>
     warnings r =
       concat (map (\<lambda>m.
          concat (map (\<lambda>tm.
             (case files_str tm of
                None \<Rightarrow> [missing_files_warning (task_id tm)]
              | Some v \<Rightarrow> if v = [] then [missing_files_warning (task_id tm)] else [])
             @ (case complexity_group tm of
                  None \<Rightarrow> []
                | Some v \<Rightarrow>
                    if v \<noteq> [] \<and> py_lower (py_strip v) \<notin> set [''low'', ''medium'', ''high'']
                    then [invalid_complexity_warning (task_id tm) (py_lower (py_strip v))] else []))
            (task_matches m))
          @ (if task_matches m = []
             then [empty_section_warning (digits_to_nat (number_group m)) (py_strip (name_group m))]
             else [])) ms)"
proof -
  from assms obtain r where r: "parse_tasks_md ms = Inr r"
    and s: "sections r = map section_of_match ms"
    and w: "warnings r = concat (map section_warnings ms)"
    by (rule parse_tasks_md_wf)
  have "complexity (tasks (sections r ! i) ! j) =
          (case complexity_group (task_matches (ms ! i) ! j) of
             None \<Rightarrow> ''medium''
           | Some v \<Rightarrow>
               if v \<noteq> [] \<and> py_lower (py_strip v) \<in> set [''low'', ''medium'', ''high'']
               then py_lower (py_strip v) else ''medium'')"
    if "i < length ms" "j < length (task_matches (ms ! i))" for i j
    using that by (simp add: s section_of_match_def complexity_task_of_match)
  moreover have "warnings r =
       concat (map (\<lambda>m.
          concat (map (\<lambda>tm.
             (case files_str tm of
                None \<Rightarrow> [missing_files_warning (task_id tm)]
              | Some v \<Rightarrow> if v = [] then [missing_files_warning (task_id tm)] else [])
             @ (case complexity_group tm of
                  None \<Rightarrow> []
                | Some v \<Rightarrow>
                    if v \<noteq> [] \<and> py_lower (py_strip v) \<notin> set [''low'', ''medium'', ''high'']
                    then [invalid_complexity_warning (task_id tm) (py_lower (py_strip v))] else []))
            (task_matches m))
          @ (if task_matches m = []
             then [empty_section_warning (digits_to_nat (number_group m)) (py_strip (name_group m))]
             else [])) ms)"
    unfolding w section_warnings_def task_warnings_eq ..
  ultimately show ?thesis using r by (intro exI [of _ r]) simp
qed

lemma one_line_parsed:
  "parse_tasks_md one_line =
     Inr \<lparr>sections = [\<lparr>number = 1, name = ''Setup'',
                        tasks = [task_of ''1.1'' ''Add schema'' [''schema.ts'']]\<rparr>],
          errors = [], warnings = []\<rparr>"
  by code_simp

lemma invalid_complexity_line_wf: "list_all wf_section_match invalid_complexity_line"
  by code_simp

lemma invalid_complexity_line_parsed:
  "parse_tasks_md invalid_complexity_line =
     Inr \<lparr>sections = [\<lparr>number = 1, name = ''Setup'',
                        tasks = [task_of ''1.1'' ''Add schema'' [''schema.ts'']]\<rparr>],
          errors = [],
          warnings = [invalid_complexity_warning ''1.1'' ''huge'']\<rparr>"
  by code_simp

theorem complexity_annotation_witness:
  "list_all wf_section_match invalid_complexity_line \<and>
   parse_tasks_md invalid_complexity_line =
     Inr \<lparr>sections = [\<lparr>number = 1, name = ''Setup'',
                        tasks = [task_of ''1.1'' ''Add schema'' [''schema.ts'']]\<rparr>],
          errors = [],
          warnings = [invalid_complexity_warning ''1.1'' ''huge'']\<rparr>"
  using complexity_annotation [OF invalid_complexity_line_wf]
    invalid_complexity_line_wf invalid_complexity_line_parsed
  by simp

text \<open>
  The claim as stated, that a missing annotation records a warning, fails on a line
  with files and no complexity annotation: the warnings stay empty.
\<close>

theorem missing_complexity_no_warning:
  "complexity_group (line_of ''1.1'' ''Add schema'' ''schema.ts'') = None \<and>
   parse_tasks_md one_line =
     Inr \<lparr>sections = [\<lparr>number = 1, name = ''Setup'',
                        tasks = [task_of ''1.1'' ''Add schema'' [''schema.ts'']]\<rparr>],
          errors = [], warnings = []\<rparr>"
  using one_line_parsed by (simp add: line_of_def)

lemma ids_of_sections:
  "map id_t (concat (map tasks (map section_of_match ms))) = map task_id (concat (map task_matches ms))"
  by (induction ms) (simp_all add: section_of_match_def task_of_match_def comp_def)

text \<open>
  C8 (as amended). The parser does not look for repeated identifiers: the tasks of the
  result carry, in document order, exactly the identifiers of the matched task lines,
  so no two tasks carry the same identifier if and only if no two matched lines do.
\<close>

theorem task_ids_follow_lines:
  assumes "list_all wf_section_match ms"
  shows "\<exists>r. parse_tasks_md ms = Inr r \<and>
           map id_t (concat (map tasks (sections r))) = map task_id (concat (map task_matches ms)) \<and>
           (distinct (map id_t (concat (map tasks (sections r)))) \<longleftrightarrow>
            distinct (map task_id (concat (map task_matches ms))))"
proof -
  from assms obtain r where r: "parse_tasks_md ms = Inr r"
    and s: "sections r = map section_of_match ms"
    by (rule parse_tasks_md_wf)
  have "map id_t (concat (map tasks (sections r))) = map task_id (concat (map task_matches ms))"
    unfolding s by (rule ids_of_sections)
  with r show ?thesis by simp
qed

lemma repeated_id_wf: "list_all wf_section_match repeated_id"
  by code_simp

lemma repeated_id_parsed:
  "parse_tasks_md repeated_id =
     Inr \<lparr>sections = [\<lparr>number = 1, name = ''Setup'',
                        tasks = [task_of ''1.1'' ''Add schema'' [''schema.ts''],
                                 task_of ''1.1'' ''Add mutation'' [''mutation.ts'']]\<rparr>],
          errors = [], warnings = []\<rparr>"
  by code_simp

theorem task_ids_follow_lines_witness:
  "list_all wf_section_match repeated_id \<and>
   parse_tasks_md repeated_id =
     Inr \<lparr>sections = [\<lparr>number = 1, name = ''Setup'',
                        tasks = [task_of ''1.1'' ''Add schema'' [''schema.ts''],
                                 task_of ''1.1'' ''Add mutation'' [''mutation.ts'']]\<rparr>],
          errors = [], warnings = []\<rparr> \<and>
   map id_t (concat (map tasks
     [\<lparr>number = 1, name = ''Setup'',
       tasks = [task_of ''1.1'' ''Add schema'' [''schema.ts''],
                task_of ''1.1'' ''Add mutation'' [''mutation.ts'']]\<rparr>])) = [''1.1'', ''1.1''] \<and>
   map task_id (concat (map task_matches repeated_id)) = [''1.1'', ''1.1''] \<and>
   \<not> distinct (map id_t (concat (map tasks
     [\<lparr>number = 1, name = ''Setup'',
       tasks = [task_of ''1.1'' ''Add schema'' [''schema.ts''],
                task_of ''1.1'' ''Add mutation'' [''mutation.ts'']]\<rparr>])))"
proof -
  from task_ids_follow_lines [OF repeated_id_wf] obtain r
    where r: "parse_tasks_md repeated_id = Inr r"
      and ids: "map id_t (concat (map tasks (sections r))) =
                  map task_id (concat (map task_matches repeated_id))"
      and d: "distinct (map id_t (concat (map tasks (sections r)))) \<longleftrightarrow>
                distinct (map task_id (concat (map task_matches repeated_id)))"
    by blast
  have m: "map task_id (concat (map task_matches repeated_id)) = [''1.1'', ''1.1'']"
    by (simp add: repeated_id_def line_of_def)
  from r have "Inr r = parse_tasks_md repeated_id" by (rule sym)
  also note repeated_id_parsed
  finally have "r =
      \<lparr>sections = [\<lparr>number = 1, name = ''Setup'',
                        tasks = [task_of ''1.1'' ''Add schema'' [''schema.ts''],
                                 task_of ''1.1'' ''Add mutation'' [''mutation.ts'']]\<rparr>],
       errors = [], warnings = []\<rparr>"
    by (simp only: sum.inject)
  then have s: "sections r =
      [\<lparr>number = 1, name = ''Setup'',
        tasks = [task_of ''1.1'' ''Add schema'' [''schema.ts''],
                 task_of ''1.1'' ''Add mutation'' [''mutation.ts'']]\<rparr>]"
    by (simp only: ParseResult.simps)
  from ids m have i: "map id_t (concat (map tasks (sections r))) = [''1.1'', ''1.1'']"
    by simp
  from d m have n: "\<not> distinct (map id_t (concat (map tasks (sections r))))"
    by simp
  from repeated_id_wf repeated_id_parsed i n m show ?thesis
    unfolding s by (intro conjI)
qed

text \<open>
  The claim as stated fails on two task lines with the identifier \<open>1.1\<close>: both become
  tasks, with no error and no warning.
\<close>

theorem repeated_identifier:
  "parse_tasks_md repeated_id =
     Inr \<lparr>sections = [\<lparr>number = 1, name = ''Setup'',
                        tasks = [task_of ''1.1'' ''Add schema'' [''schema.ts''],
                                 task_of ''1.1'' ''Add mutation'' [''mutation.ts'']]\<rparr>],
          errors = [], warnings = []\<rparr> \<and>
   id_t (task_of ''1.1'' ''Add schema'' [''schema.ts'']) =
   id_t (task_of ''1.1'' ''Add mutation'' [''mutation.ts''])"
  by code_simp

text \<open>
  C10. A task line whose leading number differs from the number of its section still
  becomes a task of that section, at the position of the line, with every field filled
  from the groups of the line as for any other line; the result holds the error for the
  mismatch, and the task is among the tasks the inference engine reads.
\<close>

theorem mismatched_task_kept:
  assumes "list_all wf_section_match ms"
    and "i < length ms"
    and "j < length (task_matches (ms ! i))"
    and "digits_to_nat (hd (py_split CHR ''.'' (task_id (task_matches (ms ! i) ! j))))
           \<noteq> digits_to_nat (number_group (ms ! i))"
  shows "\<exists>r. parse_tasks_md ms = Inr r \<and>
           i < length (sections r) \<and> j < length (tasks (sections r ! i)) \<and>
           tasks (sections r ! i) ! j =
             \<lparr>id_t = task_id (task_matches (ms ! i) ! j),
              description = py_strip (description_group (task_matches (ms ! i) ! j)),
              files = (case parse_list (files_str (task_matches (ms ! i) ! j)) of
                         Some fs \<Rightarrow> fs | None \<Rightarrow> []),
              depends_on = (case parse_list (depends_str (task_matches (ms ! i) ! j)) of
                              Some ds \<Rightarrow> ds | None \<Rightarrow> []),
              agent_type = (case agent (task_matches (ms ! i) ! j) of
                              None \<Rightarrow> None
                            | Some a \<Rightarrow> if a = [] then None else Some (py_strip a)),
              complexity = fst (parse_complexity (task_id (task_matches (ms ! i) ! j))
                                  (complexity_group (task_matches (ms ! i) ! j))),
              completed = (checkbox_state (task_matches (ms ! i) ! j) = ''x'')\<rparr> \<and>
           tasks (sections r ! i) ! j \<in> set (concat (map tasks (sections r))) \<and>
           mismatch_error (task_id (task_matches (ms ! i) ! j)) (digits_to_nat (number_group (ms ! i)))
             \<in> set (errors r)"
proof -
  let ?tm = "task_matches (ms ! i) ! j"
  from assms(1) obtain r where r: "parse_tasks_md ms = Inr r"
    and s: "sections r = map section_of_match ms"
    and e: "set (concat (map section_errors ms)) \<subseteq> set (errors r)"
    by (rule parse_tasks_md_wf)
  have i: "i < length (sections r)" using assms(2) by (simp add: s)
  have j: "j < length (tasks (sections r ! i))"
    using assms(2,3) by (simp add: s section_of_match_def)
  have t: "tasks (sections r ! i) ! j = task_of_match ?tm"
    using assms(2,3) by (simp add: s section_of_match_def)
  have "tasks (sections r ! i) ! j \<in> set (tasks (sections r ! i))"
    using j by simp
  moreover have "sections r ! i \<in> set (sections r)" using i by simp
  ultimately have m: "tasks (sections r ! i) ! j \<in> set (concat (map tasks (sections r)))"
    by auto
  have "mismatch_error (task_id ?tm) (digits_to_nat (number_group (ms ! i)))
          \<in> set (task_errors (digits_to_nat (number_group (ms ! i))) ?tm)"
    using assms(4) by (simp add: task_errors_def)
  moreover have "?tm \<in> set (task_matches (ms ! i))" using assms(3) by simp
  ultimately have "mismatch_error (task_id ?tm) (digits_to_nat (number_group (ms ! i)))
          \<in> set (section_errors (ms ! i))"
    unfolding section_errors_def by auto
  moreover have "ms ! i \<in> set ms" using assms(2) by simp
  ultimately have "mismatch_error (task_id ?tm) (digits_to_nat (number_group (ms ! i)))
          \<in> set (concat (map section_errors ms))"
    by auto
  with e have err: "mismatch_error (task_id ?tm) (digits_to_nat (number_group (ms ! i))) \<in> set (errors r)"
    by blast
  have t': "tasks (sections r ! i) ! j =
             \<lparr>id_t = task_id ?tm,
              description = py_strip (description_group ?tm),
              files = (case parse_list (files_str ?tm) of Some fs \<Rightarrow> fs | None \<Rightarrow> []),
              depends_on = (case parse_list (depends_str ?tm) of Some ds \<Rightarrow> ds | None \<Rightarrow> []),
              agent_type = (case agent ?tm of
                              None \<Rightarrow> None
                            | Some a \<Rightarrow> if a = [] then None else Some (py_strip a)),
              complexity = fst (parse_complexity (task_id ?tm) (complexity_group ?tm)),
              completed = (checkbox_state ?tm = ''x'')\<rparr>"
    unfolding t task_of_match_def ..
  show ?thesis
    by (rule exI [of _ r]) (intro conjI; fact)
qed

lemma misplaced_line_wf: "list_all wf_section_match misplaced_line"
  by code_simp

theorem mismatched_task_kept_witness:
  "list_all wf_section_match misplaced_line \<and> (0::nat) < length misplaced_line \<and>
   (0::nat) < length (task_matches (misplaced_line ! 0)) \<and>
   digits_to_nat (hd (py_split CHR ''.'' (task_id (task_matches (misplaced_line ! 0) ! 0))))
     \<noteq> digits_to_nat (number_group (misplaced_line ! 0)) \<and>
   parse_tasks_md misplaced_line =
     Inr \<lparr>sections = [\<lparr>number = 1, name = ''Setup'',
                        tasks = [task_of ''2.1'' ''Add schema'' [''schema.ts'']]\<rparr>],
          errors = [mismatch_error ''2.1'' 1], warnings = []\<rparr>"
proof -
  have 1: "(0::nat) < length misplaced_line" by (simp add: misplaced_line_def)
  have 2: "(0::nat) < length (task_matches (misplaced_line ! 0))" by (simp add: misplaced_line_def)
  have 3: "digits_to_nat (hd (py_split CHR ''.'' (task_id (task_matches (misplaced_line ! 0) ! 0))))
     \<noteq> digits_to_nat (number_group (misplaced_line ! 0))"
    by code_simp
  have 4: "parse_tasks_md misplaced_line =
     Inr \<lparr>sections = [\<lparr>number = 1, name = ''Setup'',
                        tasks = [task_of ''2.1'' ''Add schema'' [''schema.ts'']]\<rparr>],
          errors = [mismatch_error ''2.1'' 1], warnings = []\<rparr>"
    by code_simp
  from mismatched_task_kept [OF misplaced_line_wf 1 2 3] misplaced_line_wf 1 2 3 4
  show ?thesis by simp
qed

end
